theory Spec2Isabelle
  imports Main
begin

section \<open>Logger factory (src/utils/logger.py)\<close>

text \<open>
  The factory works on the logger registry of the \<^verbatim>\<open>logging\<close> module, a process-wide
  table from names to logger objects. The registry is made an explicit state: the root logger
  and the dictionary of named loggers. Of a logger only the two attributes the factory
  touches are kept, its level and its list of handlers.
\<close>

record Formatter =
  fmt :: string
  datefmt :: string

record RichHandler =
  rich_tracebacks :: bool
  markup :: bool
  show_time :: bool
  show_path :: bool
  formatter :: "Formatter option"

record Logger =
  level :: int
  handlers :: "RichHandler list"

record Manager =
  root :: Logger
  loggerDict :: "string \<rightharpoonup> Logger"

text \<open>A logger object is identified by the place it occupies in the registry.\<close>

datatype handle = Root | Named string

definition NOTSET :: int where "NOTSET = 0"
definition INFO :: int where "INFO = 20"
definition WARNING :: int where "WARNING = 30"

text \<open>The registry when \<^verbatim>\<open>logging\<close> has just been imported: a root logger at WARNING, no
  named logger.\<close>

definition logging_initial :: Manager where
  "logging_initial = \<lparr>root = \<lparr>level = WARNING, handlers = []\<rparr>, loggerDict = Map.empty\<rparr>"

text \<open>\<^verbatim>\<open>logging.getLogger(name)\<close>: the empty name and the root's own name give the root
  logger; any other name gives the registered logger, created with level NOTSET and no
  handler when the name is new.\<close>

definition getLogger :: "string \<Rightarrow> Manager \<Rightarrow> handle \<times> Manager" where
  "getLogger name m =
     (if name = [] \<or> name = ''root'' then (Root, m)
      else (case loggerDict m name of
              Some l \<Rightarrow> (Named name, m)
            | None \<Rightarrow> (Named name,
                m\<lparr>loggerDict := (loggerDict m)(name \<mapsto> \<lparr>level = NOTSET, handlers = []\<rparr>)\<rparr>)))"

text \<open>Reading and updating the logger behind a handle. A handle is only ever produced by
  \<open>getLogger\<close>, which registers the name; for a name that is not registered the reading
  gives the attributes of a newly created logger.\<close>

definition logger_of :: "Manager \<Rightarrow> handle \<Rightarrow> Logger" where
  "logger_of m h =
     (case h of
        Root \<Rightarrow> root m
      | Named name \<Rightarrow> (case loggerDict m name of
                         Some l \<Rightarrow> l
                       | None \<Rightarrow> \<lparr>level = NOTSET, handlers = []\<rparr>))"

definition update_logger :: "handle \<Rightarrow> (Logger \<Rightarrow> Logger) \<Rightarrow> Manager \<Rightarrow> Manager" where
  "update_logger h f m =
     (case h of
        Root \<Rightarrow> m\<lparr>root := f (root m)\<rparr>
      | Named name \<Rightarrow> m\<lparr>loggerDict := (loggerDict m)(name \<mapsto> f (logger_of m h))\<rparr>)"

text \<open>\<^verbatim>\<open>logger.setLevel(level)\<close> with an integer level stores it; \<^verbatim>\<open>logger.addHandler(h)\<close>
  appends a handler object that is not yet attached, and a handler constructed by the caller
  just before is never attached yet.\<close>

definition setLevel :: "handle \<Rightarrow> int \<Rightarrow> Manager \<Rightarrow> Manager" where
  "setLevel h lvl m = update_logger h (\<lambda>l. l\<lparr>level := lvl\<rparr>) m"

definition addHandler :: "handle \<Rightarrow> RichHandler \<Rightarrow> Manager \<Rightarrow> Manager" where
  "addHandler h hdlr m = update_logger h (\<lambda>l. l\<lparr>handlers := handlers l @ [hdlr]\<rparr>) m"

text \<open>The console sink the factory builds (lines 30 to 42 of logger.py).\<close>

definition console_handler :: RichHandler where
  "console_handler =
     \<lparr>rich_tracebacks = True, markup = True, show_time = True, show_path = False,
      formatter = Some \<lparr>fmt = ''%(message)s'', datefmt = ''[%X]''\<rparr>\<rparr>"

text \<open>\<^verbatim>\<open>setup_logger(name, level)\<close>, lines 22 to 46: look the logger up, set its level, return
  it at once when it has a handler, else attach the console sink and return it.\<close>

definition setup_logger :: "string \<Rightarrow> int \<Rightarrow> Manager \<Rightarrow> handle \<times> Manager" where
  "setup_logger name lvl m =
     (let (logger, m1) = getLogger name m;
          m2 = setLevel logger lvl m1
      in if handlers (logger_of m2 logger) \<noteq> [] then (logger, m2)
         else (logger, addHandler logger console_handler m2))"

text \<open>Line 50: loading the module builds the default logger, named \<^verbatim>\<open>redditsearch\<close>, at INFO.\<close>

definition module_loaded :: Manager where
  "module_loaded = snd (setup_logger ''redditsearch'' INFO logging_initial)"

text \<open>A run of the process after the module is loaded: any sequence of factory calls.\<close>

fun factory_calls :: "(string \<times> int) list \<Rightarrow> Manager \<Rightarrow> Manager" where
  "factory_calls [] m = m"
| "factory_calls ((name, lvl) # cs) m = factory_calls cs (snd (setup_logger name lvl m))"

text \<open>The handle that \<open>getLogger\<close> returns for a name.\<close>

definition handle_of :: "string \<Rightarrow> handle" where
  "handle_of name = (if name = [] \<or> name = ''root'' then Root else Named name)"

section \<open>Settings provider (src/config/settings.py)\<close>

text \<open>
  \<^verbatim>\<open>class Settings(BaseSettings)\<close> declares seven fields with their types and defaults and a
  \<^verbatim>\<open>model_config\<close>. Constructing it runs the loader of \<^verbatim>\<open>pydantic_settings\<close>: the
  environment source and the dotenv source each look the declared fields up by name, a value
  found for a list field is decoded, the two results are merged with the environment source on
  top, and the merged data are validated against the declared types; a field with no value keeps
  its default. The process environment and the content of the override file are the inputs.
\<close>

record Settings =
  REDDIT_CLIENT_ID :: string
  REDDIT_CLIENT_SECRET :: string
  REDDIT_USER_AGENT :: string
  DEFAULT_SUBREDDITS :: "string list"
  DEFAULT_KEYWORDS :: "string list"
  DATABASE_PATH :: string
  OUTPUT_DIR :: string
  model_extra :: "(string \<times> string) list"

text \<open>The defaults of lines 14 to 24. No extra key is kept unless one is supplied and
  allowed.\<close>

definition Settings_defaults :: Settings where
  "Settings_defaults =
     \<lparr>REDDIT_CLIENT_ID = [],
      REDDIT_CLIENT_SECRET = [],
      REDDIT_USER_AGENT = ''redditsearch/0.1.0'',
      DEFAULT_SUBREDDITS = [''SaaS'', ''Entrepreneur'', ''startups''],
      DEFAULT_KEYWORDS = [''pay for'', ''need a tool'', ''wish there was''],
      DATABASE_PATH = ''data/redditsearch.db'',
      OUTPUT_DIR = ''output'',
      model_extra = []\<rparr>"

datatype field_type = StrField | ListStrField

text \<open>The declared fields, in the order of the class body.\<close>

definition model_fields :: "(string \<times> field_type) list" where
  "model_fields =
     [(''REDDIT_CLIENT_ID'', StrField),
      (''REDDIT_CLIENT_SECRET'', StrField),
      (''REDDIT_USER_AGENT'', StrField),
      (''DEFAULT_SUBREDDITS'', ListStrField),
      (''DEFAULT_KEYWORDS'', ListStrField),
      (''DATABASE_PATH'', StrField),
      (''OUTPUT_DIR'', StrField)]"

datatype extra_mode = ExtraIgnore | ExtraForbid | ExtraAllow

record SettingsConfigDict =
  env_file :: string
  env_file_encoding :: string
  case_sensitive :: bool
  extra :: extra_mode

text \<open>Lines 26 to 31.\<close>

definition model_config :: SettingsConfigDict where
  "model_config =
     \<lparr>env_file = ''.env'', env_file_encoding = ''utf-8'', case_sensitive = True,
      extra = ExtraIgnore\<rparr>"

text \<open>
  What decoding the external text of a list field gives: the text is not JSON
  (\<^verbatim>\<open>json.loads\<close> raises a \<^verbatim>\<open>ValueError\<close>); or it is nested deeper than the interpreter
  allows (\<^verbatim>\<open>RecursionError\<close>); or it is the JSON text \<^verbatim>\<open>null\<close>, decoded to \<^verbatim>\<open>None\<close>; or it is
  JSON of another shape than a list of strings; or it is a list of strings. The decoder belongs
  to the libraries, so the loader takes it as an argument.
\<close>

datatype decoded = Undecodable | TooDeep | Null | Mistyped | Items "string list"

datatype field_value = StrValue string | ListValue "string list" | BadValue

text \<open>A \<open>SettingsError\<close> is raised by a source and names the field whose text it could not
  parse; a \<open>ValidationError\<close> is raised by the validation of the merged data and lists the
  keys that failed; a \<open>RecursionError\<close> of the decoder passes through the loader as it is and
  names no field.\<close>

datatype error = SettingsError string | ValidationError "string list" | RecursionError

text \<open>
  Preparing the text found for a field: the text of a string field is the value; the text of a
  list field is decoded. The decoder's \<^verbatim>\<open>ValueError\<close> and \<^verbatim>\<open>RecursionError\<close> are raised; a
  decoded \<^verbatim>\<open>None\<close> is returned as no value; any other decoded value is returned, and a value
  that is not a list of strings is kept for the validation to refuse.
\<close>

datatype raised = ValueError | RecursionLimit

definition prepare_field_value ::
    "(string \<Rightarrow> decoded) \<Rightarrow> field_type \<Rightarrow> string \<Rightarrow> raised + field_value option" where
  "prepare_field_value dec t v =
     (case t of
        StrField \<Rightarrow> Inr (Some (StrValue v))
      | ListStrField \<Rightarrow> (case dec v of
                          Undecodable \<Rightarrow> Inl ValueError
                        | TooDeep \<Rightarrow> Inl RecursionLimit
                        | Null \<Rightarrow> Inr None
                        | Mistyped \<Rightarrow> Inr (Some BadValue)
                        | Items xs \<Rightarrow> Inr (Some (ListValue xs))))"

text \<open>
  One source: the fields are visited in declaration order and looked up under their exact
  names, as \<open>case_sensitive = True\<close> asks. The first field whose text raises ends the source:
  a \<^verbatim>\<open>ValueError\<close> is wrapped in a \<open>SettingsError\<close> that names the field. A field with no
  variable, or whose prepared value is \<^verbatim>\<open>None\<close>, gets no entry in the data of the source.
\<close>

fun env_settings_source ::
    "(string \<Rightarrow> decoded) \<Rightarrow> (string \<rightharpoonup> string) \<Rightarrow> (string \<times> field_type) list
       \<Rightarrow> error + (string \<rightharpoonup> field_value)" where
  "env_settings_source dec vars [] = Inr Map.empty"
| "env_settings_source dec vars ((name, t) # fs) =
     (case vars name of
        None \<Rightarrow> env_settings_source dec vars fs
      | Some v \<Rightarrow>
          (case prepare_field_value dec t v of
             Inl ValueError \<Rightarrow> Inl (SettingsError name)
           | Inl RecursionLimit \<Rightarrow> Inl RecursionError
           | Inr None \<Rightarrow> env_settings_source dec vars fs
           | Inr (Some fv) \<Rightarrow>
               (case env_settings_source dec vars fs of
                  Inl e \<Rightarrow> Inl e
                | Inr data \<Rightarrow> Inr (data(name \<mapsto> fv)))))"

text \<open>
  The override file is given by what reading it returns: \<open>None\<close> when there is no file, else
  the items of its dictionary of keys and values. The dotenv source hands on, besides the
  declared fields, every other key of the file that has a non-empty value.
\<close>

definition dotenv_vars :: "(string \<times> string) list option \<Rightarrow> (string \<rightharpoonup> string)" where
  "dotenv_vars file = (case file of None \<Rightarrow> Map.empty | Some items \<Rightarrow> map_of items)"

definition dotenv_extra ::
    "(string \<times> field_type) list \<Rightarrow> (string \<times> string) list option \<Rightarrow> (string \<times> string) list" where
  "dotenv_extra fs file =
     (case file of
        None \<Rightarrow> []
      | Some items \<Rightarrow> filter (\<lambda>(k, v). v \<noteq> [] \<and> k \<notin> set (map fst fs)) items)"

text \<open>Validation of the merged data against the declared types.\<close>

definition field_invalid :: "(string \<rightharpoonup> field_value) \<Rightarrow> string \<times> field_type \<Rightarrow> bool" where
  "field_invalid data f =
     (case data (fst f) of
        None \<Rightarrow> False
      | Some (StrValue s) \<Rightarrow> snd f \<noteq> StrField
      | Some (ListValue xs) \<Rightarrow> snd f \<noteq> ListStrField
      | Some BadValue \<Rightarrow> True)"

definition str_or :: "(string \<rightharpoonup> field_value) \<Rightarrow> string \<Rightarrow> string \<Rightarrow> string" where
  "str_or data name dflt = (case data name of Some (StrValue s) \<Rightarrow> s | _ \<Rightarrow> dflt)"

definition list_or :: "(string \<rightharpoonup> field_value) \<Rightarrow> string \<Rightarrow> string list \<Rightarrow> string list" where
  "list_or data name dflt = (case data name of Some (ListValue xs) \<Rightarrow> xs | _ \<Rightarrow> dflt)"

definition model_validate ::
    "SettingsConfigDict \<Rightarrow> (string \<rightharpoonup> field_value) \<Rightarrow> (string \<times> string) list
       \<Rightarrow> error + Settings" where
  "model_validate cfg data extras =
     (let bad = map fst (filter (field_invalid data) model_fields)
              @ (if extra cfg = ExtraForbid then map fst extras else [])
      in if bad \<noteq> [] then Inl (ValidationError bad)
         else Inr
           \<lparr>REDDIT_CLIENT_ID = str_or data ''REDDIT_CLIENT_ID'' (REDDIT_CLIENT_ID Settings_defaults),
            REDDIT_CLIENT_SECRET =
              str_or data ''REDDIT_CLIENT_SECRET'' (REDDIT_CLIENT_SECRET Settings_defaults),
            REDDIT_USER_AGENT =
              str_or data ''REDDIT_USER_AGENT'' (REDDIT_USER_AGENT Settings_defaults),
            DEFAULT_SUBREDDITS =
              list_or data ''DEFAULT_SUBREDDITS'' (DEFAULT_SUBREDDITS Settings_defaults),
            DEFAULT_KEYWORDS =
              list_or data ''DEFAULT_KEYWORDS'' (DEFAULT_KEYWORDS Settings_defaults),
            DATABASE_PATH = str_or data ''DATABASE_PATH'' (DATABASE_PATH Settings_defaults),
            OUTPUT_DIR = str_or data ''OUTPUT_DIR'' (OUTPUT_DIR Settings_defaults),
            model_extra = (if extra cfg = ExtraAllow then extras else [])\<rparr>)"

text \<open>
  \<^verbatim>\<open>Settings()\<close>: the environment source runs first, then the dotenv source; the data of the
  environment source are laid over those of the dotenv source; the result is validated.
\<close>

definition Settings_init ::
    "(string \<Rightarrow> decoded) \<Rightarrow> (string \<rightharpoonup> string) \<Rightarrow> (string \<times> string) list option
       \<Rightarrow> error + Settings" where
  "Settings_init dec environ file =
     (case env_settings_source dec environ model_fields of
        Inl e \<Rightarrow> Inl e
      | Inr env_data \<Rightarrow>
          (case env_settings_source dec (dotenv_vars file) model_fields of
             Inl e \<Rightarrow> Inl e
           | Inr dotenv_data \<Rightarrow>
               model_validate model_config (dotenv_data ++ env_data)
                 (dotenv_extra model_fields file)))"

text \<open>
  \<^verbatim>\<open>get_settings()\<close>, lines 34 to 43, constructs a new \<open>Settings\<close> on every call. The
  process is the state: its environment and the override file in its working directory. A
  call reads the state and leaves it as it is.
\<close>

record process =
  os_environ :: "string \<rightharpoonup> string"
  dotenv_file :: "(string \<times> string) list option"

definition get_settings ::
    "(string \<Rightarrow> decoded) \<Rightarrow> process \<Rightarrow> (error + Settings) \<times> process" where
  "get_settings dec p = (Settings_init dec (os_environ p) (dotenv_file p), p)"

definition setenv :: "string \<Rightarrow> string \<Rightarrow> process \<Rightarrow> process" where
  "setenv name v p = p\<lparr>os_environ := (os_environ p)(name \<mapsto> v)\<rparr>"

section \<open>The decoder of list fields\<close>

text \<open>
  The decoder the loader is run with: \<^verbatim>\<open>json.loads\<close> followed by the validation of the
  value against \<^verbatim>\<open>List[str]\<close>. The parser follows the decoder of the \<^verbatim>\<open>json\<close> module
  (\<^verbatim>\<open>scanstring\<close>, \<^verbatim>\<open>JSONArray\<close>, \<^verbatim>\<open>JSONObject\<close>, \<^verbatim>\<open>scan_once\<close>, \<^verbatim>\<open>decode\<close>). Numbers keep their
  text. A string of this development is the UTF-8 text of the Python string, a sequence of
  bytes; a lone surrogate, which a Python string may hold, is written in the three-byte form.
  The recursion limit of the interpreter is not part of this decoder, which never answers
  \<open>TooDeep\<close>: that outcome is covered where a statement is made for an arbitrary decoder.
\<close>

datatype json =
    JNull
  | JBool bool
  | JNumber string
  | JString string
  | JArray "json list"
  | JObject "(string \<times> json) list"

definition is_ws :: "char \<Rightarrow> bool" where
  "is_ws c = (c = CHR '' '' \<or> c = CHR 0x09 \<or> c = CHR 0x0A \<or> c = CHR 0x0D)"

definition skip_ws :: "string \<Rightarrow> string" where
  "skip_ws s = dropWhile is_ws s"

definition is_digit :: "char \<Rightarrow> bool" where
  "is_digit c = (48 \<le> (of_char c :: nat) \<and> (of_char c :: nat) \<le> 57)"

text \<open>The value of a hexadecimal digit, and of the four digits of a \<^verbatim>\<open>\uXXXX\<close> escape.\<close>

definition hex_value :: "char \<Rightarrow> nat option" where
  "hex_value c =
     (let n = (of_char c :: nat)
      in if 48 \<le> n \<and> n \<le> 57 then Some (n - 48)
         else if 65 \<le> n \<and> n \<le> 70 then Some (n - 55)
         else if 97 \<le> n \<and> n \<le> 102 then Some (n - 87)
         else None)"

definition decode_uXXXX :: "char \<Rightarrow> char \<Rightarrow> char \<Rightarrow> char \<Rightarrow> nat option" where
  "decode_uXXXX a b c d =
     (case (hex_value a, hex_value b, hex_value c, hex_value d) of
        (Some h3, Some h2, Some h1, Some h0) \<Rightarrow> Some (((h3 * 16 + h2) * 16 + h1) * 16 + h0)
      | _ \<Rightarrow> None)"

text \<open>The one-letter escapes.\<close>

definition BACKSLASH :: "char \<Rightarrow> char option" where
  "BACKSLASH e =
     (if e = CHR 0x22 then Some (CHR 0x22)
      else if e = CHR 0x5C then Some (CHR 0x5C)
      else if e = CHR ''/'' then Some (CHR ''/'')
      else if e = CHR ''b'' then Some (CHR 0x08)
      else if e = CHR ''f'' then Some (CHR 0x0C)
      else if e = CHR ''n'' then Some (CHR 0x0A)
      else if e = CHR ''r'' then Some (CHR 0x0D)
      else if e = CHR ''t'' then Some (CHR 0x09)
      else None)"

definition prepend :: "'a \<Rightarrow> ('a list \<times> 'b) option \<Rightarrow> ('a list \<times> 'b) option" where
  "prepend x r = (case r of None \<Rightarrow> None | Some (xs, rest) \<Rightarrow> Some (x # xs, rest))"

definition prepend_list :: "'a list \<Rightarrow> ('a list \<times> 'b) option \<Rightarrow> ('a list \<times> 'b) option" where
  "prepend_list ys r = (case r of None \<Rightarrow> None | Some (xs, rest) \<Rightarrow> Some (ys @ xs, rest))"

text \<open>The UTF-8 text of a code point.\<close>

definition utf8_encode :: "nat \<Rightarrow> string" where
  "utf8_encode n =
     (if n < 0x80 then [char_of n]
      else if n < 0x800 then [char_of (0xC0 + n div 64), char_of (0x80 + n mod 64)]
      else if n < 0x10000 then
        [char_of (0xE0 + n div 4096), char_of (0x80 + (n div 64) mod 64), char_of (0x80 + n mod 64)]
      else
        [char_of (0xF0 + n div 262144), char_of (0x80 + (n div 4096) mod 64),
         char_of (0x80 + (n div 64) mod 64), char_of (0x80 + n mod 64)])"

text \<open>
  \<^verbatim>\<open>scanstring\<close>, in strict mode: the text after an opening quote, up to the closing one. A
  control character inside the string, an unknown escape or the end of the text is an error.
  A \<^verbatim>\<open>\uXXXX\<close> escape has four hexadecimal digits; when they give a high surrogate and another
  \<^verbatim>\<open>\u\<close> follows, the four digits of that one are read too, and a low surrogate there is
  joined with the high one into one code point.
\<close>

fun scanstring :: "string \<Rightarrow> (string \<times> string) option" where
  "scanstring [] = None"
| "scanstring (c # cs) =
     (if c = CHR 0x22 then Some ([], cs)
      else if c = CHR 0x5C then
        (case cs of
           [] \<Rightarrow> None
         | e # r \<Rightarrow>
             if e = CHR ''u'' then
               (case r of
                  h3 # h2 # h1 # h0 # r' \<Rightarrow>
                    (case decode_uXXXX h3 h2 h1 h0 of
                       None \<Rightarrow> None
                     | Some uni \<Rightarrow>
                         if 0xD800 \<le> uni \<and> uni \<le> 0xDBFF \<and> take 2 r' = [CHR 0x5C, CHR ''u'']
                         then
                           (case r' of
                              b # u # l3 # l2 # l1 # l0 # r'' \<Rightarrow>
                                (case decode_uXXXX l3 l2 l1 l0 of
                                   None \<Rightarrow> None
                                 | Some uni2 \<Rightarrow>
                                     if 0xDC00 \<le> uni2 \<and> uni2 \<le> 0xDFFF
                                     then prepend_list
                                       (utf8_encode
                                          (0x10000 + (uni - 0xD800) * 1024 + (uni2 - 0xDC00)))
                                       (scanstring r'')
                                     else prepend_list (utf8_encode uni) (scanstring r'))
                            | _ \<Rightarrow> None)
                         else prepend_list (utf8_encode uni) (scanstring r'))
                | _ \<Rightarrow> None)
             else (case BACKSLASH e of
                     None \<Rightarrow> None
                   | Some ch \<Rightarrow> prepend ch (scanstring r)))
      else if (of_char c :: nat) < 32 then None
      else prepend c (scanstring cs))"

text \<open>The number pattern: an optional sign, \<^verbatim>\<open>0\<close> or a digit sequence that does not start
  with \<^verbatim>\<open>0\<close>, an optional fraction, an optional exponent. The result is the text after the
  longest match.\<close>

definition match_number :: "string \<Rightarrow> string option" where
  "match_number s =
     (let s1 = (case s of [] \<Rightarrow> [] | c # r \<Rightarrow> if c = CHR ''-'' then r else s);
          int_rest = (case s1 of
                        [] \<Rightarrow> None
                      | c # r \<Rightarrow> if c = CHR ''0'' then Some r
                                 else if is_digit c then Some (dropWhile is_digit r)
                                 else None)
      in case int_rest of
           None \<Rightarrow> None
         | Some s2 \<Rightarrow>
             (let s3 = (case s2 of
                          c # d # r \<Rightarrow> if c = CHR ''.'' \<and> is_digit d then dropWhile is_digit r else s2
                        | _ \<Rightarrow> s2);
                  s4 = (case s3 of
                          [] \<Rightarrow> s3
                        | c # r \<Rightarrow>
                            if c = CHR ''e'' \<or> c = CHR ''E'' then
                              (let r1 = (case r of
                                           [] \<Rightarrow> r
                                         | g # r0 \<Rightarrow> if g = CHR ''+'' \<or> g = CHR ''-'' then r0 else r)
                               in case r1 of
                                    [] \<Rightarrow> s3
                                  | d # r2 \<Rightarrow> if is_digit d then dropWhile is_digit r2 else s3)
                            else s3)
              in Some s4))"

definition literal :: "string \<Rightarrow> string \<Rightarrow> string option" where
  "literal w s = (if take (length w) s = w then Some (drop (length w) s) else None)"

text \<open>
  The text of a number that has neither fraction nor exponent is converted by \<^verbatim>\<open>int\<close>, which
  raises a \<^verbatim>\<open>ValueError\<close> when it has more digits than \<^verbatim>\<open>sys.int_info.default_max_str_digits\<close>.
\<close>

definition int_max_str_digits :: nat where
  "int_max_str_digits = 4300"

definition parse_number :: "string \<Rightarrow> json option" where
  "parse_number num =
     (if list_all (\<lambda>c. is_digit c \<or> c = CHR ''-'') num
         \<and> int_max_str_digits < length (filter is_digit num)
      then None else Some (JNumber num))"

definition scan_atom :: "string \<Rightarrow> (json \<times> string) option" where
  "scan_atom s =
     (case literal ''null'' s of Some r \<Rightarrow> Some (JNull, r) | None \<Rightarrow>
      case literal ''true'' s of Some r \<Rightarrow> Some (JBool True, r) | None \<Rightarrow>
      case literal ''false'' s of Some r \<Rightarrow> Some (JBool False, r) | None \<Rightarrow>
      case match_number s of
        Some r \<Rightarrow> (case parse_number (take (length s - length r) s) of
                     None \<Rightarrow> None
                   | Some num \<Rightarrow> Some (num, r))
      | None \<Rightarrow>
      case literal ''NaN'' s of Some r \<Rightarrow> Some (JNumber ''NaN'', r) | None \<Rightarrow>
      case literal ''Infinity'' s of Some r \<Rightarrow> Some (JNumber ''Infinity'', r) | None \<Rightarrow>
      case literal ''-Infinity'' s of Some r \<Rightarrow> Some (JNumber ''-Infinity'', r) | None \<Rightarrow> None)"

text \<open>
  The three mutually recursive parsers. \<open>scan_once\<close> reads one value at the head of the text;
  \<open>JSONArray\<close> reads the elements of an array from its first element on; \<open>JSONObject\<close> reads
  the members of an object from behind the opening quote of its first key. The first argument
  bounds the number of nested calls; every call consumes a character before it calls again, so
  a bound above twice the length of the text is never exhausted (\<open>fuel_enough\<close> below).
\<close>

fun scan_once :: "nat \<Rightarrow> string \<Rightarrow> (json \<times> string) option"
  and JSONArray :: "nat \<Rightarrow> string \<Rightarrow> (json list \<times> string) option"
  and JSONObject :: "nat \<Rightarrow> string \<Rightarrow> ((string \<times> json) list \<times> string) option" where
  "scan_once 0 s = None"
| "scan_once (Suc k) [] = None"
| "scan_once (Suc k) (c # cs) =
     (if c = CHR 0x22 then
        (case scanstring cs of None \<Rightarrow> None | Some (str, r) \<Rightarrow> Some (JString str, r))
      else if c = CHR ''{'' then
        (case skip_ws cs of
           [] \<Rightarrow> None
         | d # r \<Rightarrow>
             if d = CHR ''}'' then Some (JObject [], r)
             else if d = CHR 0x22 then
               (case JSONObject k r of None \<Rightarrow> None | Some (ps, r') \<Rightarrow> Some (JObject ps, r'))
             else None)
      else if c = CHR ''['' then
        (case skip_ws cs of
           [] \<Rightarrow> None
         | d # r \<Rightarrow>
             if d = CHR '']'' then Some (JArray [], r)
             else (case JSONArray k (d # r) of
                     None \<Rightarrow> None
                   | Some (vs, r') \<Rightarrow> Some (JArray vs, r')))
      else scan_atom (c # cs))"
| "JSONArray 0 s = None"
| "JSONArray (Suc k) s =
     (case scan_once k s of
        None \<Rightarrow> None
      | Some (v, r) \<Rightarrow>
          (case skip_ws r of
             [] \<Rightarrow> None
           | d # r' \<Rightarrow>
               if d = CHR '']'' then Some ([v], r')
               else if d = CHR '','' then prepend v (JSONArray k (skip_ws r'))
               else None))"
| "JSONObject 0 s = None"
| "JSONObject (Suc k) s =
     (case scanstring s of
        None \<Rightarrow> None
      | Some (key, r) \<Rightarrow>
          (case skip_ws r of
             [] \<Rightarrow> None
           | c # r1 \<Rightarrow>
               if c \<noteq> CHR '':'' then None
               else (case scan_once k (skip_ws r1) of
                       None \<Rightarrow> None
                     | Some (v, r2) \<Rightarrow>
                         (case skip_ws r2 of
                            [] \<Rightarrow> None
                          | d # r3 \<Rightarrow>
                              if d = CHR ''}'' then Some ([(key, v)], r3)
                              else if d = CHR '','' then
                                (case skip_ws r3 of
                                   [] \<Rightarrow> None
                                 | q # r4 \<Rightarrow>
                                     if q = CHR 0x22 then prepend (key, v) (JSONObject k r4)
                                     else None)
                              else None))))"

text \<open>\<^verbatim>\<open>json.loads\<close>: white space, one value, white space, and nothing else.\<close>

definition json_loads :: "string \<Rightarrow> json option" where
  "json_loads s =
     (case scan_once (Suc (2 * length s)) (skip_ws s) of
        None \<Rightarrow> None
      | Some (v, r) \<Rightarrow> if skip_ws r = [] then Some v else None)"

text \<open>Validation against \<^verbatim>\<open>List[str]\<close>: a list whose elements are all strings.\<close>

fun str_items :: "json list \<Rightarrow> string list option" where
  "str_items [] = Some []"
| "str_items (JString s # js) = (case str_items js of None \<Rightarrow> None | Some xs \<Rightarrow> Some (s # xs))"
| "str_items (j # js) = None"

definition decode_complex_value :: "string \<Rightarrow> decoded" where
  "decode_complex_value v =
     (case json_loads v of
        None \<Rightarrow> Undecodable
      | Some JNull \<Rightarrow> Null
      | Some (JArray js) \<Rightarrow> (case str_items js of None \<Rightarrow> Mistyped | Some xs \<Rightarrow> Items xs)
      | Some _ \<Rightarrow> Mistyped)"

text \<open>
  The text that \<^verbatim>\<open>json.dumps\<close> writes for a list of strings: the printable ASCII characters
  other than the quote and the backslash stand for themselves, every other code point is
  escaped, one above \<^verbatim>\<open>0xFFFF\<close> as a pair of surrogates; the elements are separated by a comma
  and a space.
\<close>

text \<open>The code points of a UTF-8 text. A byte that begins no sequence of the text of a Python
  string is taken as the code point of its own value.\<close>

fun utf8_decode :: "string \<Rightarrow> nat list" where
  "utf8_decode [] = []"
| "utf8_decode (b # bs) =
     (let n = (of_char b :: nat) in
      if 0xF0 \<le> n then
        (case bs of
           c1 # c2 # c3 # r \<Rightarrow>
             ((n - 0xF0) * 262144 + (of_char c1 mod 64) * 4096 + (of_char c2 mod 64) * 64
                + of_char c3 mod 64) # utf8_decode r
         | _ \<Rightarrow> n # utf8_decode bs)
      else if 0xE0 \<le> n then
        (case bs of
           c1 # c2 # r \<Rightarrow>
             ((n - 0xE0) * 4096 + (of_char c1 mod 64) * 64 + of_char c2 mod 64) # utf8_decode r
         | _ \<Rightarrow> n # utf8_decode bs)
      else if 0xC0 \<le> n then
        (case bs of
           c1 # r \<Rightarrow> ((n - 0xC0) * 64 + of_char c1 mod 64) # utf8_decode r
         | _ \<Rightarrow> n # utf8_decode bs)
      else n # utf8_decode bs)"

definition hex_digit :: "nat \<Rightarrow> char" where
  "hex_digit n = ''0123456789abcdef'' ! (n mod 16)"

definition hex4 :: "nat \<Rightarrow> string" where
  "hex4 n = [hex_digit (n div 4096), hex_digit (n div 256), hex_digit (n div 16), hex_digit n]"

definition escape_char :: "nat \<Rightarrow> string" where
  "escape_char n =
     (if n = 0x22 then [CHR 0x5C, CHR 0x22]
      else if n = 0x5C then [CHR 0x5C, CHR 0x5C]
      else if n = 0x0A then [CHR 0x5C, CHR ''n'']
      else if n = 0x0D then [CHR 0x5C, CHR ''r'']
      else if n = 0x09 then [CHR 0x5C, CHR ''t'']
      else if n = 0x08 then [CHR 0x5C, CHR ''b'']
      else if n = 0x0C then [CHR 0x5C, CHR ''f'']
      else if 32 \<le> n \<and> n \<le> 126 then [char_of n]
      else if n < 0x10000 then [CHR 0x5C, CHR ''u''] @ hex4 n
      else [CHR 0x5C, CHR ''u''] @ hex4 (0xD800 + ((n - 0x10000) div 1024) mod 1024)
         @ [CHR 0x5C, CHR ''u''] @ hex4 (0xDC00 + (n - 0x10000) mod 1024))"

definition encode_basestring_ascii :: "string \<Rightarrow> string" where
  "encode_basestring_ascii s =
     [CHR 0x22] @ concat (map escape_char (utf8_decode s)) @ [CHR 0x22]"

fun join_items :: "string list \<Rightarrow> string" where
  "join_items [] = []"
| "join_items [x] = x"
| "join_items (x # y # ys) = x @ '', '' @ join_items (y # ys)"

definition json_dumps :: "string list \<Rightarrow> string" where
  "json_dumps xs = ''['' @ join_items (map encode_basestring_ascii xs) @ '']''"

text \<open>A simple string: one that is written between the quotes as it is.\<close>

definition simple_char :: "char \<Rightarrow> bool" where
  "simple_char c =
     (32 \<le> (of_char c :: nat) \<and> (of_char c :: nat) \<le> 126 \<and> c \<noteq> CHR 0x22 \<and> c \<noteq> CHR 0x5C)"

definition simple_string :: "string \<Rightarrow> bool" where
  "simple_string s = list_all simple_char s"

section \<open>Reading a snapshot by field name\<close>

text \<open>The value a snapshot holds under the name of a field.\<close>

definition field_of :: "Settings \<Rightarrow> string \<Rightarrow> field_value" where
  "field_of s name =
     (if name = ''REDDIT_CLIENT_ID'' then StrValue (REDDIT_CLIENT_ID s)
      else if name = ''REDDIT_CLIENT_SECRET'' then StrValue (REDDIT_CLIENT_SECRET s)
      else if name = ''REDDIT_USER_AGENT'' then StrValue (REDDIT_USER_AGENT s)
      else if name = ''DEFAULT_SUBREDDITS'' then ListValue (DEFAULT_SUBREDDITS s)
      else if name = ''DEFAULT_KEYWORDS'' then ListValue (DEFAULT_KEYWORDS s)
      else if name = ''DATABASE_PATH'' then StrValue (DATABASE_PATH s)
      else if name = ''OUTPUT_DIR'' then StrValue (OUTPUT_DIR s)
      else BadValue)"

text \<open>The snapshot with the field of that name replaced.\<close>

definition with_field :: "string \<Rightarrow> field_value \<Rightarrow> Settings \<Rightarrow> Settings" where
  "with_field name fv s =
     (case fv of
        StrValue v \<Rightarrow>
          (if name = ''REDDIT_CLIENT_ID'' then s\<lparr>REDDIT_CLIENT_ID := v\<rparr>
           else if name = ''REDDIT_CLIENT_SECRET'' then s\<lparr>REDDIT_CLIENT_SECRET := v\<rparr>
           else if name = ''REDDIT_USER_AGENT'' then s\<lparr>REDDIT_USER_AGENT := v\<rparr>
           else if name = ''DATABASE_PATH'' then s\<lparr>DATABASE_PATH := v\<rparr>
           else if name = ''OUTPUT_DIR'' then s\<lparr>OUTPUT_DIR := v\<rparr>
           else s)
      | ListValue xs \<Rightarrow>
          (if name = ''DEFAULT_SUBREDDITS'' then s\<lparr>DEFAULT_SUBREDDITS := xs\<rparr>
           else if name = ''DEFAULT_KEYWORDS'' then s\<lparr>DEFAULT_KEYWORDS := xs\<rparr>
           else s)
      | BadValue \<Rightarrow> s)"

text \<open>The external text of a field, read at the type of the field: the text itself for a
  string field, the decoded list for a list field.\<close>

definition read_value :: "(string \<Rightarrow> decoded) \<Rightarrow> field_type \<Rightarrow> string \<Rightarrow> field_value" where
  "read_value dec t v =
     (case t of
        StrField \<Rightarrow> StrValue v
      | ListStrField \<Rightarrow> (case dec v of Items xs \<Rightarrow> ListValue xs | _ \<Rightarrow> BadValue))"

text \<open>What counts as a value supplied under a name: the entry there, unless the field is a
  list field and the entry is the JSON text \<^verbatim>\<open>null\<close>.\<close>

definition supplied :: "(string \<Rightarrow> decoded) \<Rightarrow> field_type \<Rightarrow> string option \<Rightarrow> string option" where
  "supplied dec t entry =
     (case entry of
        None \<Rightarrow> None
      | Some v \<Rightarrow> if t = ListStrField \<and> dec v = Null then None else Some v)"

text \<open>The entry of the override file under a name.\<close>

definition file_entry :: "(string \<times> string) list option \<Rightarrow> string \<Rightarrow> string option" where
  "file_entry file name = (case file of None \<Rightarrow> None | Some items \<Rightarrow> map_of items name)"

text \<open>
  The resolution order as the specification words it, for one field: the value supplied by
  the environment variable of that name if there is one, else the value supplied by the entry
  of the override file, else the default.
\<close>

definition precedence_spec ::
    "(string \<Rightarrow> decoded) \<Rightarrow> (string \<rightharpoonup> string) \<Rightarrow> (string \<times> string) list option
       \<Rightarrow> string \<times> field_type \<Rightarrow> field_value" where
  "precedence_spec dec environ file f =
     (case supplied dec (snd f) (environ (fst f)) of
        Some v \<Rightarrow> read_value dec (snd f) v
      | None \<Rightarrow> (case supplied dec (snd f) (file_entry file (fst f)) of
                  Some v \<Rightarrow> read_value dec (snd f) v
                | None \<Rightarrow> field_of Settings_defaults (fst f)))"

text \<open>The fields an error names.\<close>

definition error_fields :: "error \<Rightarrow> string list" where
  "error_fields e =
     (case e of SettingsError n \<Rightarrow> [n] | ValidationError ns \<Rightarrow> ns | RecursionError \<Rightarrow> [])"


text \<open>
  The text that the resolution order selects for a field: the one supplied by the environment,
  else the one supplied by the override file. A text cannot be coerced to the type of its field
  when the field is a list field and the text is not JSON, is nested too deeply, or is JSON of
  another shape than a list of strings.
\<close>

definition selected ::
    "(string \<Rightarrow> decoded) \<Rightarrow> (string \<rightharpoonup> string) \<Rightarrow> (string \<times> string) list option
       \<Rightarrow> string \<times> field_type \<Rightarrow> string option" where
  "selected dec environ file f =
     (case supplied dec (snd f) (environ (fst f)) of
        Some v \<Rightarrow> Some v
      | None \<Rightarrow> supplied dec (snd f) (file_entry file (fst f)))"

definition uncoercible :: "(string \<Rightarrow> decoded) \<Rightarrow> field_type \<Rightarrow> string \<Rightarrow> bool" where
  "uncoercible dec t v =
     (t = ListStrField \<and> (dec v = Undecodable \<or> dec v = TooDeep \<or> dec v = Mistyped))"

definition mistyped_selected ::
    "(string \<Rightarrow> decoded) \<Rightarrow> (string \<rightharpoonup> string) \<Rightarrow> (string \<times> string) list option
       \<Rightarrow> string \<times> field_type \<Rightarrow> bool" where
  "mistyped_selected dec environ file f =
     (case selected dec environ file f of
        None \<Rightarrow> False
      | Some v \<Rightarrow> snd f = ListStrField \<and> dec v = Mistyped)"

text \<open>The texts found for a field, in the environment or in the override file.\<close>

definition texts_of ::
    "(string \<rightharpoonup> string) \<Rightarrow> (string \<times> string) list option \<Rightarrow> string \<Rightarrow> string list" where
  "texts_of environ file name =
     (case environ name of None \<Rightarrow> [] | Some v \<Rightarrow> [v])
     @ (case file_entry file name of None \<Rightarrow> [] | Some v \<Rightarrow> [v])"
section \<open>The logger factory: proofs\<close>

lemma fst_setup_logger: "fst (setup_logger name lvl m) = fst (getLogger name m)"
  by (simp add: setup_logger_def Let_def split: prod.splits)

lemma fst_getLogger: "fst (getLogger name m) = handle_of name"
  by (simp add: getLogger_def handle_of_def split: option.splits)

lemma logger_of_getLogger: "logger_of (snd (getLogger name m)) h = logger_of m h"
  by (auto simp: getLogger_def logger_of_def split: option.splits handle.splits)

lemma logger_of_update_logger:
  "logger_of (update_logger h f m) h' = (if h' = h then f (logger_of m h) else logger_of m h')"
  by (auto simp: update_logger_def logger_of_def split: handle.splits option.splits)

text \<open>What one call of the factory does to every logger of the registry.\<close>

lemma logger_of_setup_logger:
  "logger_of (snd (setup_logger name lvl m)) h =
     (if h = handle_of name
      then \<lparr>level = lvl,
            handlers = (if handlers (logger_of m h) = [] then [console_handler]
                        else handlers (logger_of m h))\<rparr>
      else logger_of m h)"
  using fst_getLogger [of name m]
  by (auto simp: setup_logger_def Let_def setLevel_def addHandler_def logger_of_update_logger
      logger_of_getLogger [of name m, symmetric] split: prod.splits)

text \<open>The invariant of the registry: a logger has no sink or the one console sink.\<close>

lemma sinks_initial:
  "handlers (logger_of logging_initial h) = [] \<or>
   handlers (logger_of logging_initial h) = [console_handler]"
  by (auto simp: logging_initial_def logger_of_def split: handle.splits)

lemma sinks_setup:
  assumes "\<And>h. handlers (logger_of m h) = [] \<or> handlers (logger_of m h) = [console_handler]"
  shows "handlers (logger_of (snd (setup_logger name lvl m)) h) = [] \<or>
         handlers (logger_of (snd (setup_logger name lvl m)) h) = [console_handler]"
  using assms [of h] by (auto simp: logger_of_setup_logger)

lemma sinks_calls:
  assumes "\<And>h. handlers (logger_of m h) = [] \<or> handlers (logger_of m h) = [console_handler]"
  shows "handlers (logger_of (factory_calls cs m) h) = [] \<or>
         handlers (logger_of (factory_calls cs m) h) = [console_handler]"
  using assms
proof (induction cs arbitrary: m h)
  case Nil
  then show ?case by simp
next
  case (Cons c cs)
  obtain name lvl where c: "c = (name, lvl)" by (cases c)
  have "\<And>h. handlers (logger_of (snd (setup_logger name lvl m)) h) = [] \<or>
            handlers (logger_of (snd (setup_logger name lvl m)) h) = [console_handler]"
    by (rule sinks_setup) (rule Cons.prems)
  from Cons.IH [OF this] show ?case by (simp add: c)
qed

lemma sinks_loaded:
  "handlers (logger_of (factory_calls cs module_loaded) h) = [] \<or>
   handlers (logger_of (factory_calls cs module_loaded) h) = [console_handler]"
  unfolding module_loaded_def
  by (rule sinks_calls) (rule sinks_setup, rule sinks_initial)

text \<open>
  Claim C2. From any registry, two calls of the factory with the same name (at any two levels)
  return the same handle; the first call leaves the handlers of the named logger as they were
  when it had some, and attaches the one console sink when it had none; the second call finds
  the logger as the first one left it and attaches nothing. So in a process that has loaded
  the module and then made any sequence of factory calls, the logger has exactly one handler,
  the console sink, after the first of the two calls and after the second.
\<close>

theorem setup_logger_idempotent:
  "(let (h1, m1) = setup_logger name lvl m0;
        (h2, m2) = setup_logger name lvl' m1
    in h1 = h2
       \<and> handlers (logger_of m1 h1) =
           (if handlers (logger_of m0 h1) = [] then [console_handler]
            else handlers (logger_of m0 h1))
       \<and> handlers (logger_of m2 h2) = handlers (logger_of m1 h1))
   \<and> (let m = factory_calls cs module_loaded;
          (h1, m1) = setup_logger name lvl m;
          (h2, m2) = setup_logger name lvl' m1
      in h1 = h2 \<and> handlers (logger_of m1 h1) = [console_handler]
         \<and> handlers (logger_of m2 h2) = [console_handler])"
proof
  show "(let (h1, m1) = setup_logger name lvl m0;
        (h2, m2) = setup_logger name lvl' m1
    in h1 = h2
       \<and> handlers (logger_of m1 h1) =
           (if handlers (logger_of m0 h1) = [] then [console_handler]
            else handlers (logger_of m0 h1))
       \<and> handlers (logger_of m2 h2) = handlers (logger_of m1 h1))"
    using fst_setup_logger [of name lvl m0] fst_getLogger [of name m0]
      fst_setup_logger [of name lvl' "snd (setup_logger name lvl m0)"]
      fst_getLogger [of name "snd (setup_logger name lvl m0)"]
      logger_of_setup_logger [of name lvl m0 "handle_of name"]
      logger_of_setup_logger [of name lvl' "snd (setup_logger name lvl m0)" "handle_of name"]
    by (auto simp: split_beta)
next
  define m where "m = factory_calls cs module_loaded"
  have "handlers (logger_of m (handle_of name)) = [] \<or>
        handlers (logger_of m (handle_of name)) = [console_handler]"
    unfolding m_def by (rule sinks_loaded)
  then show "(let m = factory_calls cs module_loaded;
          (h1, m1) = setup_logger name lvl m;
          (h2, m2) = setup_logger name lvl' m1
      in h1 = h2 \<and> handlers (logger_of m1 h1) = [console_handler]
         \<and> handlers (logger_of m2 h2) = [console_handler])"
    unfolding Let_def m_def [symmetric]
    using fst_setup_logger [of name lvl m] fst_getLogger [of name m]
      fst_setup_logger [of name lvl' "snd (setup_logger name lvl m)"]
      fst_getLogger [of name "snd (setup_logger name lvl m)"]
      logger_of_setup_logger [of name lvl m "handle_of name"]
      logger_of_setup_logger [of name lvl' "snd (setup_logger name lvl m)" "handle_of name"]
    by (auto simp: split_beta)
qed

text \<open>
  Claim C10. From any registry, a call of the factory leaves the named logger at the level it
  was given, whether or not the logger had a handler; a second call with the same name and
  another level returns the same handle, moves the level of that logger to the new value and
  leaves its handlers as they were.
\<close>

theorem setup_logger_sets_level:
  "(let (h1, m1) = setup_logger name lvl m;
        (h2, m2) = setup_logger name lvl' m1
    in level (logger_of m1 h1) = lvl \<and> h2 = h1 \<and> level (logger_of m2 h2) = lvl'
       \<and> handlers (logger_of m2 h2) = handlers (logger_of m1 h1))"
  using fst_setup_logger [of name lvl m] fst_getLogger [of name m]
    fst_setup_logger [of name lvl' "snd (setup_logger name lvl m)"]
    fst_getLogger [of name "snd (setup_logger name lvl m)"]
    logger_of_setup_logger [of name lvl m "handle_of name"]
    logger_of_setup_logger [of name lvl' "snd (setup_logger name lvl m)" "handle_of name"]
  by (auto simp: split_beta)

section \<open>The settings provider: proofs\<close>

text \<open>A source reads the variables only at the names of the fields.\<close>

lemma source_cong:
  "\<forall>n\<in>set (map fst fs). vars n = vars' n \<Longrightarrow>
   env_settings_source dec vars fs = env_settings_source dec vars' fs"
  by (induction fs) (auto split: option.splits sum.splits)

text \<open>The data of a source that did not raise.\<close>

lemma source_Inr:
  "env_settings_source dec vars fs = Inr data \<Longrightarrow> distinct (map fst fs) \<Longrightarrow>
   data n = (case map_of fs n of
               None \<Rightarrow> None
             | Some t \<Rightarrow> (case vars n of
                           None \<Rightarrow> None
                         | Some v \<Rightarrow> (case prepare_field_value dec t v of
                                       Inl r \<Rightarrow> None
                                     | Inr fvo \<Rightarrow> fvo)))"
proof (induction fs arbitrary: data)
  case Nil
  then show ?case by auto
next
  case (Cons f fs)
  obtain name t where f: "f = (name, t)" by (cases f)
  from Cons.prems(2) f have notin: "name \<notin> fst ` set fs" and dist: "distinct (map fst fs)"
    by auto
  from notin have mo: "map_of fs name = None" by (simp add: map_of_eq_None_iff)
  show ?case
  proof (cases "vars name")
    case None
    with Cons f dist mo show ?thesis by (auto split: option.splits)
  next
    case (Some v)
    show ?thesis
    proof (cases "prepare_field_value dec t v")
      case (Inl r)
      with Cons.prems(1) f Some show ?thesis
        by (cases r) simp_all
    next
      case (Inr fvo)
      show ?thesis
      proof (cases fvo)
        case None
        with Cons.prems(1) f Some Inr
        have d: "env_settings_source dec vars fs = Inr data" by simp
        from Cons.IH [OF d dist] Some Inr None f mo show ?thesis
          by (auto split: option.splits)
      next
        case fv: (Some fv)
        with Cons.prems(1) f Some Inr obtain d where
          d: "env_settings_source dec vars fs = Inr d" and data: "data = d(name \<mapsto> fv)"
          by (auto split: sum.splits)
        from Cons.IH [OF d dist] Some Inr fv data f mo show ?thesis
          by (auto split: option.splits)
      qed
    qed
  qed
qed

lemma source_Inr_prepared:
  "env_settings_source dec vars fs = Inr data \<Longrightarrow> (n, t) \<in> set fs \<Longrightarrow> vars n = Some v \<Longrightarrow>
   \<exists>fvo. prepare_field_value dec t v = Inr fvo"
  by (induction fs arbitrary: data)
    (auto split: option.splits sum.splits raised.splits)

text \<open>A source raises only for a field whose text the decoder raised on; a \<open>SettingsError\<close>
  names that field.\<close>

lemma source_Inl:
  "env_settings_source dec vars fs = Inl e \<Longrightarrow>
   \<exists>n t v. (n, t) \<in> set fs \<and> vars n = Some v \<and>
     (prepare_field_value dec t v = Inl ValueError \<and> e = SettingsError n \<or>
      prepare_field_value dec t v = Inl RecursionLimit \<and> e = RecursionError)"
  by (induction fs arbitrary: e)
    (fastforce split: option.splits sum.splits raised.splits)+

lemma source_total:
  "\<forall>(n, t)\<in>set fs. \<forall>v. vars n = Some v \<longrightarrow> (\<exists>fvo. prepare_field_value dec t v = Inr fvo) \<Longrightarrow>
   \<exists>data. env_settings_source dec vars fs = Inr data"
  by (induction fs) (auto split: option.splits sum.splits raised.splits)

lemma distinct_fields: "distinct (map fst model_fields)"
  by (simp add: model_fields_def)

lemma init_empty: "Settings_init dec Map.empty None = Inr Settings_defaults"
  by (simp add: Settings_init_def model_fields_def dotenv_vars_def model_validate_def
      field_invalid_def model_config_def dotenv_extra_def str_or_def list_or_def Settings_defaults_def)

text \<open>What a successful validation returns.\<close>

lemma validate_Inr:
  assumes "model_validate cfg data ex = Inr s"
  shows "\<forall>f\<in>set model_fields. \<not> field_invalid data f"
    and "s =
           \<lparr>REDDIT_CLIENT_ID = str_or data ''REDDIT_CLIENT_ID'' (REDDIT_CLIENT_ID Settings_defaults),
            REDDIT_CLIENT_SECRET =
              str_or data ''REDDIT_CLIENT_SECRET'' (REDDIT_CLIENT_SECRET Settings_defaults),
            REDDIT_USER_AGENT =
              str_or data ''REDDIT_USER_AGENT'' (REDDIT_USER_AGENT Settings_defaults),
            DEFAULT_SUBREDDITS =
              list_or data ''DEFAULT_SUBREDDITS'' (DEFAULT_SUBREDDITS Settings_defaults),
            DEFAULT_KEYWORDS =
              list_or data ''DEFAULT_KEYWORDS'' (DEFAULT_KEYWORDS Settings_defaults),
            DATABASE_PATH = str_or data ''DATABASE_PATH'' (DATABASE_PATH Settings_defaults),
            OUTPUT_DIR = str_or data ''OUTPUT_DIR'' (OUTPUT_DIR Settings_defaults),
            model_extra = (if extra cfg = ExtraAllow then ex else [])\<rparr>"
proof -
  let ?bad = "map fst (filter (field_invalid data) model_fields)
              @ (if extra cfg = ExtraForbid then map fst ex else [])"
  from assms have e: "?bad = []"
    unfolding model_validate_def Let_def by (simp split: if_splits)
  then have "filter (field_invalid data) model_fields = []" by simp
  then show "\<forall>f\<in>set model_fields. \<not> field_invalid data f"
    by (simp only: filter_empty_conv)
  from assms e show "s =
           \<lparr>REDDIT_CLIENT_ID = str_or data ''REDDIT_CLIENT_ID'' (REDDIT_CLIENT_ID Settings_defaults),
            REDDIT_CLIENT_SECRET =
              str_or data ''REDDIT_CLIENT_SECRET'' (REDDIT_CLIENT_SECRET Settings_defaults),
            REDDIT_USER_AGENT =
              str_or data ''REDDIT_USER_AGENT'' (REDDIT_USER_AGENT Settings_defaults),
            DEFAULT_SUBREDDITS =
              list_or data ''DEFAULT_SUBREDDITS'' (DEFAULT_SUBREDDITS Settings_defaults),
            DEFAULT_KEYWORDS =
              list_or data ''DEFAULT_KEYWORDS'' (DEFAULT_KEYWORDS Settings_defaults),
            DATABASE_PATH = str_or data ''DATABASE_PATH'' (DATABASE_PATH Settings_defaults),
            OUTPUT_DIR = str_or data ''OUTPUT_DIR'' (OUTPUT_DIR Settings_defaults),
            model_extra = (if extra cfg = ExtraAllow then ex else [])\<rparr>"
    unfolding model_validate_def Let_def by (simp only: if_True if_False simp_thms sum.inject)
qed

lemma str_field_value:
  "\<not> field_invalid data (n, StrField) \<Longrightarrow>
   StrValue (str_or data n d) = (case data n of None \<Rightarrow> StrValue d | Some fv \<Rightarrow> fv)"
  by (simp add: field_invalid_def str_or_def split: option.splits field_value.splits)

lemma list_field_value:
  "\<not> field_invalid data (n, ListStrField) \<Longrightarrow>
   ListValue (list_or data n d) = (case data n of None \<Rightarrow> ListValue d | Some fv \<Rightarrow> fv)"
  by (simp add: field_invalid_def list_or_def split: option.splits field_value.splits)

text \<open>The declared fields, one by one.\<close>

lemma model_fields_cases:
  "(n, t) \<in> set model_fields \<Longrightarrow>
   (n = ''REDDIT_CLIENT_ID'' \<and> t = StrField) \<or>
   (n = ''REDDIT_CLIENT_SECRET'' \<and> t = StrField) \<or>
   (n = ''REDDIT_USER_AGENT'' \<and> t = StrField) \<or>
   (n = ''DEFAULT_SUBREDDITS'' \<and> t = ListStrField) \<or>
   (n = ''DEFAULT_KEYWORDS'' \<and> t = ListStrField) \<or>
   (n = ''DATABASE_PATH'' \<and> t = StrField) \<or>
   (n = ''OUTPUT_DIR'' \<and> t = StrField)"
  unfolding model_fields_def by (simp only: list.set insert_iff empty_iff prod.inject simp_thms)

lemma validate_field:
  assumes "model_validate cfg data ex = Inr s" and "(n, t) \<in> set model_fields"
  shows "field_of s n = (case data n of None \<Rightarrow> field_of Settings_defaults n | Some fv \<Rightarrow> fv)"
proof -
  note ok = validate_Inr(1) [OF assms(1)] and s = validate_Inr(2) [OF assms(1)]
  from assms(2) have okn: "\<not> field_invalid data (n, t)" using ok by blast
  have a: "field_of s ''REDDIT_CLIENT_ID'' =
      StrValue (str_or data ''REDDIT_CLIENT_ID'' (REDDIT_CLIENT_ID Settings_defaults))"
    by (subst s) (simp add: field_of_def)
  have b: "field_of s ''REDDIT_CLIENT_SECRET'' =
      StrValue (str_or data ''REDDIT_CLIENT_SECRET'' (REDDIT_CLIENT_SECRET Settings_defaults))"
    by (subst s) (simp add: field_of_def)
  have c: "field_of s ''REDDIT_USER_AGENT'' =
      StrValue (str_or data ''REDDIT_USER_AGENT'' (REDDIT_USER_AGENT Settings_defaults))"
    by (subst s) (simp add: field_of_def)
  have d: "field_of s ''DEFAULT_SUBREDDITS'' =
      ListValue (list_or data ''DEFAULT_SUBREDDITS'' (DEFAULT_SUBREDDITS Settings_defaults))"
    by (subst s) (simp add: field_of_def)
  have e: "field_of s ''DEFAULT_KEYWORDS'' =
      ListValue (list_or data ''DEFAULT_KEYWORDS'' (DEFAULT_KEYWORDS Settings_defaults))"
    by (subst s) (simp add: field_of_def)
  have f: "field_of s ''DATABASE_PATH'' =
      StrValue (str_or data ''DATABASE_PATH'' (DATABASE_PATH Settings_defaults))"
    by (subst s) (simp add: field_of_def)
  have g: "field_of s ''OUTPUT_DIR'' =
      StrValue (str_or data ''OUTPUT_DIR'' (OUTPUT_DIR Settings_defaults))"
    by (subst s) (simp add: field_of_def)
  have a': "field_of Settings_defaults ''REDDIT_CLIENT_ID'' =
        StrValue (REDDIT_CLIENT_ID Settings_defaults)"
    and b': "field_of Settings_defaults ''REDDIT_CLIENT_SECRET'' =
        StrValue (REDDIT_CLIENT_SECRET Settings_defaults)"
    and c': "field_of Settings_defaults ''REDDIT_USER_AGENT'' =
        StrValue (REDDIT_USER_AGENT Settings_defaults)"
    and d': "field_of Settings_defaults ''DEFAULT_SUBREDDITS'' =
        ListValue (DEFAULT_SUBREDDITS Settings_defaults)"
    and e': "field_of Settings_defaults ''DEFAULT_KEYWORDS'' =
        ListValue (DEFAULT_KEYWORDS Settings_defaults)"
    and f': "field_of Settings_defaults ''DATABASE_PATH'' =
        StrValue (DATABASE_PATH Settings_defaults)"
    and g': "field_of Settings_defaults ''OUTPUT_DIR'' =
        StrValue (OUTPUT_DIR Settings_defaults)"
    by (simp_all add: field_of_def)
  from model_fields_cases [OF assms(2)] show ?thesis
  proof (elim disjE conjE)
    assume "n = ''REDDIT_CLIENT_ID''" "t = StrField"
    with okn show ?thesis by (simp add: a a' str_field_value split: option.splits)
  next
    assume "n = ''REDDIT_CLIENT_SECRET''" "t = StrField"
    with okn show ?thesis by (simp add: b b' str_field_value split: option.splits)
  next
    assume "n = ''REDDIT_USER_AGENT''" "t = StrField"
    with okn show ?thesis by (simp add: c c' str_field_value split: option.splits)
  next
    assume "n = ''DEFAULT_SUBREDDITS''" "t = ListStrField"
    with okn show ?thesis by (simp add: d d' list_field_value split: option.splits)
  next
    assume "n = ''DEFAULT_KEYWORDS''" "t = ListStrField"
    with okn show ?thesis by (simp add: e e' list_field_value split: option.splits)
  next
    assume "n = ''DATABASE_PATH''" "t = StrField"
    with okn show ?thesis by (simp add: f f' str_field_value split: option.splits)
  next
    assume "n = ''OUTPUT_DIR''" "t = StrField"
    with okn show ?thesis by (simp add: g g' str_field_value split: option.splits)
  qed
qed

lemma init_Inr:
  assumes "Settings_init dec environ file = Inr s"
  obtains de dd where
    "env_settings_source dec environ model_fields = Inr de"
    "env_settings_source dec (dotenv_vars file) model_fields = Inr dd"
    "model_validate model_config (dd ++ de) (dotenv_extra model_fields file) = Inr s"
  using assms unfolding Settings_init_def by (simp split: sum.splits)

text \<open>What a prepared text is, in the words of the specification.\<close>

lemma prepare_Inr:
  "prepare_field_value dec t v = Inr fvo \<Longrightarrow>
   fvo = (case supplied dec t (Some v) of None \<Rightarrow> None | Some w \<Rightarrow> Some (read_value dec t w))"
  by (cases t; cases "dec v") (auto simp: prepare_field_value_def supplied_def read_value_def)

lemma dotenv_vars_entry: "dotenv_vars file n = file_entry file n"
  by (simp add: dotenv_vars_def file_entry_def split: option.splits)

text \<open>The merged data of two sources that did not raise, at a declared field.\<close>

lemma merged_value:
  assumes de: "env_settings_source dec environ model_fields = Inr de"
    and dd: "env_settings_source dec (dotenv_vars file) model_fields = Inr dd"
    and nt: "(n, t) \<in> set model_fields"
  shows "(dd ++ de) n =
     (case supplied dec t (environ n) of
        Some v \<Rightarrow> Some (read_value dec t v)
      | None \<Rightarrow> (case supplied dec t (file_entry file n) of
                  Some v \<Rightarrow> Some (read_value dec t v)
                | None \<Rightarrow> None))"
proof -
  from nt have mo: "map_of model_fields n = Some t"
    by (simp add: distinct_fields)
  have e: "de n = (case supplied dec t (environ n) of
                     None \<Rightarrow> None | Some w \<Rightarrow> Some (read_value dec t w))"
  proof (cases "environ n")
    case None
    then show ?thesis
      using source_Inr [OF de distinct_fields, of n] mo by (simp add: supplied_def)
  next
    case (Some v)
    from source_Inr_prepared [OF de nt Some] obtain fvo where
      p: "prepare_field_value dec t v = Inr fvo" by blast
    from source_Inr [OF de distinct_fields, of n] mo Some p have "de n = fvo" by simp
    with prepare_Inr [OF p] Some show ?thesis by simp
  qed
  have f: "dd n = (case supplied dec t (file_entry file n) of
                     None \<Rightarrow> None | Some w \<Rightarrow> Some (read_value dec t w))"
  proof (cases "dotenv_vars file n")
    case None
    then show ?thesis
      using source_Inr [OF dd distinct_fields, of n] mo
      by (simp add: supplied_def dotenv_vars_entry)
  next
    case (Some v)
    from source_Inr_prepared [OF dd nt Some] obtain fvo where
      p: "prepare_field_value dec t v = Inr fvo" by blast
    from source_Inr [OF dd distinct_fields, of n] mo Some p have "dd n = fvo" by simp
    with prepare_Inr [OF p] Some show ?thesis by (simp add: dotenv_vars_entry)
  qed
  show ?thesis
    unfolding map_add_def e f by (auto split: option.splits)
qed

text \<open>Every field of a returned snapshot holds what the resolution order gives.\<close>

lemma init_field:
  assumes "Settings_init dec environ file = Inr s" and "f \<in> set model_fields"
  shows "field_of s (fst f) = precedence_spec dec environ file f"
proof -
  obtain n t where f: "f = (n, t)" by (cases f)
  from assms(1) obtain de dd where
    de: "env_settings_source dec environ model_fields = Inr de" and
    dd: "env_settings_source dec (dotenv_vars file) model_fields = Inr dd" and
    v: "model_validate model_config (dd ++ de) (dotenv_extra model_fields file) = Inr s"
    by (rule init_Inr)
  from assms(2) f have nt: "(n, t) \<in> set model_fields" by simp
  have 1: "field_of s n =
      (case (dd ++ de) n of None \<Rightarrow> field_of Settings_defaults n | Some fv \<Rightarrow> fv)"
    by (rule validate_field [OF v nt])
  show ?thesis
    unfolding f fst_conv snd_conv 1 precedence_spec_def merged_value [OF de dd nt]
    by (auto split: option.splits)
qed

text \<open>With \<open>extra = ExtraIgnore\<close> the keys handed on by the dotenv source are dropped.\<close>

lemma validate_ignore:
  "model_validate model_config data ex = model_validate model_config data []"
  by (simp add: model_validate_def model_config_def)

lemma init_cong:
  assumes "\<forall>n\<in>set (map fst model_fields). environ n = environ' n"
    and "\<forall>n\<in>set (map fst model_fields). dotenv_vars file n = dotenv_vars file' n"
  shows "Settings_init dec environ file = Settings_init dec environ' file'"
  unfolding Settings_init_def source_cong [OF assms(1), of dec] source_cong [OF assms(2), of dec]
    validate_ignore [of _ "dotenv_extra model_fields file"]
    validate_ignore [of _ "dotenv_extra model_fields file'"] ..

lemma init_no_extra:
  assumes "Settings_init dec environ file = Inr s"
  shows "model_extra s = []"
proof -
  from assms obtain de dd where
    v: "model_validate model_config (dd ++ de) (dotenv_extra model_fields file) = Inr s"
    by (rule init_Inr)
  show ?thesis
    by (subst validate_Inr(2) [OF v]) (simp add: model_config_def)
qed

text \<open>
  Claim C1. When the environment has no variable under any of the seven field names and there is
  no override file, a call of the provider returns the snapshot of the seven built-in defaults,
  and leaves the process as it was, so that every later call returns it again.
\<close>

theorem get_settings_defaults:
  assumes "\<forall>n\<in>set (map fst model_fields). os_environ p n = None"
    and "dotenv_file p = None"
  shows "get_settings dec p =
     (Inr \<lparr>REDDIT_CLIENT_ID = [],
           REDDIT_CLIENT_SECRET = [],
           REDDIT_USER_AGENT = ''redditsearch/0.1.0'',
           DEFAULT_SUBREDDITS = [''SaaS'', ''Entrepreneur'', ''startups''],
           DEFAULT_KEYWORDS = [''pay for'', ''need a tool'', ''wish there was''],
           DATABASE_PATH = ''data/redditsearch.db'',
           OUTPUT_DIR = ''output'',
           model_extra = []\<rparr>, p)"
proof -
  from assms(1) have "\<forall>n\<in>set (map fst model_fields). os_environ p n = Map.empty n" by simp
  moreover have "\<forall>n\<in>set (map fst model_fields). dotenv_vars (dotenv_file p) n = dotenv_vars None n"
    by (simp add: assms(2))
  ultimately have "Settings_init dec (os_environ p) (dotenv_file p) = Settings_init dec Map.empty None"
    by (rule init_cong)
  then show ?thesis
    by (simp add: get_settings_def init_empty Settings_defaults_def)
qed

text \<open>An environment that holds only an unrelated variable, and no override file.\<close>

theorem get_settings_defaults_witness:
  "fst (get_settings decode_complex_value
          \<lparr>os_environ = [''HOME'' \<mapsto> ''/root''], dotenv_file = None\<rparr>) =
     Inr \<lparr>REDDIT_CLIENT_ID = [],
           REDDIT_CLIENT_SECRET = [],
           REDDIT_USER_AGENT = ''redditsearch/0.1.0'',
           DEFAULT_SUBREDDITS = [''SaaS'', ''Entrepreneur'', ''startups''],
           DEFAULT_KEYWORDS = [''pay for'', ''need a tool'', ''wish there was''],
           DATABASE_PATH = ''data/redditsearch.db'',
           OUTPUT_DIR = ''output'',
           model_extra = []\<rparr>"
proof -
  let ?p = "\<lparr>os_environ = [''HOME'' \<mapsto> ''/root''], dotenv_file = None\<rparr>"
  have h1: "\<forall>n\<in>set (map fst model_fields). os_environ ?p n = None"
    by (simp add: model_fields_def)
  have h2: "dotenv_file ?p = None"
    by simp
  show ?thesis
    using get_settings_defaults [OF h1 h2, of decode_complex_value] by simp
qed

section \<open>One environment variable\<close>

lemmas init_unfold =
  Settings_init_def model_fields_def dotenv_vars_def prepare_field_value_def model_validate_def
  field_invalid_def model_config_def dotenv_extra_def str_or_def list_or_def with_field_def
  Settings_defaults_def

lemma single_str:
  assumes "(F, StrField) \<in> set model_fields"
  shows "Settings_init dec [F \<mapsto> v] None = Inr (with_field F (StrValue v) Settings_defaults)"
  using model_fields_cases [OF assms]
proof (elim disjE conjE)
  assume "F = ''REDDIT_CLIENT_ID''" then show ?thesis by (simp add: init_unfold)
next
  assume "F = ''REDDIT_CLIENT_SECRET''" then show ?thesis by (simp add: init_unfold)
next
  assume "F = ''REDDIT_USER_AGENT''" then show ?thesis by (simp add: init_unfold)
next
  assume "F = ''DATABASE_PATH''" then show ?thesis by (simp add: init_unfold)
next
  assume "F = ''OUTPUT_DIR''" then show ?thesis by (simp add: init_unfold)
qed simp_all

lemma single_list:
  assumes "(F, ListStrField) \<in> set model_fields"
  shows "Settings_init dec [F \<mapsto> v] None =
     (case dec v of
        Undecodable \<Rightarrow> Inl (SettingsError F)
      | TooDeep \<Rightarrow> Inl RecursionError
      | Null \<Rightarrow> Inr Settings_defaults
      | Mistyped \<Rightarrow> Inl (ValidationError [F])
      | Items xs \<Rightarrow> Inr (with_field F (ListValue xs) Settings_defaults))"
  using model_fields_cases [OF assms]
proof (elim disjE conjE)
  assume "F = ''DEFAULT_SUBREDDITS''" then show ?thesis
    by (cases "dec v") (simp_all add: init_unfold)
next
  assume "F = ''DEFAULT_KEYWORDS''" then show ?thesis
    by (cases "dec v") (simp_all add: init_unfold)
qed simp_all

text \<open>
  Claim C3, as stated, at the list field \<open>DEFAULT_SUBREDDITS\<close> and the text
  \<open>SaaS,startups\<close>: the text is not JSON, the provider raises and there is no snapshot.
\<close>

theorem single_variable_counterexample:
  "Settings_init decode_complex_value [''DEFAULT_SUBREDDITS'' \<mapsto> ''SaaS,startups''] None
     = Inl (SettingsError ''DEFAULT_SUBREDDITS'')"
  by code_simp

text \<open>
  Claim C3, amended. With one environment variable set, that of a declared field, and no
  override file: for a string field and every text, the provider returns the default snapshot
  with that field replaced by the text; for a list field and every text that is JSON of a list
  of strings, it returns the default snapshot with that field replaced by the decoded list.
\<close>

theorem single_variable_override:
  assumes "(F, t) \<in> set model_fields"
  shows "(t = StrField \<longrightarrow>
            Settings_init decode_complex_value [F \<mapsto> v] None
              = Inr (with_field F (StrValue v) Settings_defaults))
       \<and> (t = ListStrField \<longrightarrow>
            (\<forall>xs. decode_complex_value v = Items xs \<longrightarrow>
               Settings_init decode_complex_value [F \<mapsto> v] None
                 = Inr (with_field F (ListValue xs) Settings_defaults)))"
  using assms by (cases t) (simp_all add: single_str single_list)

text \<open>The end-to-end value of the specification for the storage path, and a list of two
  subreddit names.\<close>

theorem single_variable_override_witness:
  "Settings_init decode_complex_value [''DATABASE_PATH'' \<mapsto> ''custom/path/db.sqlite''] None
     = Inr (Settings_defaults\<lparr>DATABASE_PATH := ''custom/path/db.sqlite''\<rparr>)
   \<and> Settings_init decode_complex_value
       [''DEFAULT_SUBREDDITS'' \<mapsto> json_dumps [''python'', ''rust'']] None
     = Inr (Settings_defaults\<lparr>DEFAULT_SUBREDDITS := [''python'', ''rust'']\<rparr>)"
proof -
  have f1: "(''DATABASE_PATH'', StrField) \<in> set model_fields"
    and f2: "(''DEFAULT_SUBREDDITS'', ListStrField) \<in> set model_fields"
    by (simp_all add: model_fields_def)
  have d: "decode_complex_value (json_dumps [''python'', ''rust'']) = Items [''python'', ''rust'']"
    by code_simp
  have a: "Settings_init decode_complex_value
        [''DATABASE_PATH'' \<mapsto> ''custom/path/db.sqlite''] None
      = Inr (Settings_defaults\<lparr>DATABASE_PATH := ''custom/path/db.sqlite''\<rparr>)"
    using single_variable_override [OF f1, of "''custom/path/db.sqlite''"]
    by (simp add: with_field_def)
  have b: "Settings_init decode_complex_value
       [''DEFAULT_SUBREDDITS'' \<mapsto> json_dumps [''python'', ''rust'']] None
     = Inr (Settings_defaults\<lparr>DEFAULT_SUBREDDITS := [''python'', ''rust'']\<rparr>)"
    using single_variable_override [OF f2, of "json_dumps [''python'', ''rust'']"] d
    by (simp add: with_field_def)
  from a b show ?thesis by (rule conjI)
qed

section \<open>Precedence of the sources\<close>

text \<open>
  Claim C4, as stated, at the list field \<open>DEFAULT_KEYWORDS\<close>: the environment variable holds
  the text \<open>null\<close>, the override file holds a list under the same name; both are present and
  the snapshot holds the value of the file.
\<close>

theorem settings_precedence_counterexample:
  "Settings_init decode_complex_value [''DEFAULT_KEYWORDS'' \<mapsto> ''null'']
       (Some [(''DEFAULT_KEYWORDS'', json_dumps [''a''])])
     = Inr (Settings_defaults\<lparr>DEFAULT_KEYWORDS := [''a'']\<rparr>)"
  by code_simp

text \<open>
  Claim C4, amended. In every snapshot the provider returns, the value of every declared
  field is the one the resolution order gives: the value supplied by the environment variable
  of exactly that name when there is one, else the value supplied by the entry of the override
  file under that name, else the default; where, for a list field, an entry whose text decodes
  to \<^verbatim>\<open>null\<close> supplies no value. So the environment value wins whenever the environment
  supplies one, whatever the override file holds; the file wins over the default when only
  the file supplies one.
\<close>

theorem settings_precedence:
  assumes "Settings_init dec environ file = Inr s" and "(n, t) \<in> set model_fields"
  shows "field_of s n = precedence_spec dec environ file (n, t)
       \<and> (\<forall>v. supplied dec t (environ n) = Some v \<longrightarrow> field_of s n = read_value dec t v)
       \<and> (\<forall>v. supplied dec t (environ n) = None \<longrightarrow> supplied dec t (file_entry file n) = Some v
              \<longrightarrow> field_of s n = read_value dec t v)
       \<and> (supplied dec t (environ n) = None \<longrightarrow> supplied dec t (file_entry file n) = None
              \<longrightarrow> field_of s n = field_of Settings_defaults n)"
proof -
  have "field_of s (fst (n, t)) = precedence_spec dec environ file (n, t)"
    using assms by (rule init_field)
  then show ?thesis
    by (simp add: precedence_spec_def)
qed

text \<open>The database path is set in the environment and in the override file, the output
  directory in the override file only, the user agent nowhere.\<close>

theorem settings_precedence_witness:
  "Settings_init decode_complex_value [''DATABASE_PATH'' \<mapsto> ''env.db'']
       (Some [(''DATABASE_PATH'', ''file.db''), (''OUTPUT_DIR'', ''out'')])
     = Inr (Settings_defaults\<lparr>DATABASE_PATH := ''env.db'', OUTPUT_DIR := ''out''\<rparr>)
   \<and> field_of (Settings_defaults\<lparr>DATABASE_PATH := ''env.db'', OUTPUT_DIR := ''out''\<rparr>)
       ''DATABASE_PATH'' = StrValue ''env.db''
   \<and> field_of (Settings_defaults\<lparr>DATABASE_PATH := ''env.db'', OUTPUT_DIR := ''out''\<rparr>)
       ''OUTPUT_DIR'' = StrValue ''out''
   \<and> field_of (Settings_defaults\<lparr>DATABASE_PATH := ''env.db'', OUTPUT_DIR := ''out''\<rparr>)
       ''REDDIT_USER_AGENT'' = StrValue ''redditsearch/0.1.0''"
proof -
  let ?env = "[''DATABASE_PATH'' \<mapsto> ''env.db'']"
  let ?file = "Some [(''DATABASE_PATH'', ''file.db''), (''OUTPUT_DIR'', ''out'')]"
  let ?s = "Settings_defaults\<lparr>DATABASE_PATH := ''env.db'', OUTPUT_DIR := ''out''\<rparr>"
  have run: "Settings_init decode_complex_value ?env ?file = Inr ?s"
    by code_simp
  have f1: "(''DATABASE_PATH'', StrField) \<in> set model_fields"
    and f2: "(''OUTPUT_DIR'', StrField) \<in> set model_fields"
    and f3: "(''REDDIT_USER_AGENT'', StrField) \<in> set model_fields"
    by (simp_all add: model_fields_def)
  have e1: "supplied decode_complex_value StrField (?env ''DATABASE_PATH'') = Some ''env.db''"
    by (simp add: supplied_def)
  have e2: "supplied decode_complex_value StrField (?env ''OUTPUT_DIR'') = None"
    and e2': "supplied decode_complex_value StrField (file_entry ?file ''OUTPUT_DIR'') = Some ''out''"
    by (simp_all add: supplied_def file_entry_def)
  have e3: "supplied decode_complex_value StrField (?env ''REDDIT_USER_AGENT'') = None"
    and e3': "supplied decode_complex_value StrField (file_entry ?file ''REDDIT_USER_AGENT'') = None"
    by (simp_all add: supplied_def file_entry_def)
  note t1 = settings_precedence [OF run f1]
  note t2 = settings_precedence [OF run f2]
  note t3 = settings_precedence [OF run f3]
  have a: "field_of ?s ''DATABASE_PATH'' = StrValue ''env.db''"
    using t1 [THEN conjunct2, THEN conjunct1, rule_format, OF e1]
    by (simp add: read_value_def)
  have b: "field_of ?s ''OUTPUT_DIR'' = StrValue ''out''"
    using t2 [THEN conjunct2, THEN conjunct2, THEN conjunct1, rule_format, OF e2 e2']
    by (simp add: read_value_def)
  have c: "field_of ?s ''REDDIT_USER_AGENT'' = StrValue ''redditsearch/0.1.0''"
    using t3 [THEN conjunct2, THEN conjunct2, THEN conjunct2, rule_format, OF e3 e3']
    by (simp add: field_of_def Settings_defaults_def)
  show ?thesis by (intro conjI run a b c)
qed

section \<open>Values that cannot be read\<close>

lemma prepare_Inl:
  "prepare_field_value dec t v = Inl ValueError \<longleftrightarrow> t = ListStrField \<and> dec v = Undecodable"
  "prepare_field_value dec t v = Inl RecursionLimit \<longleftrightarrow> t = ListStrField \<and> dec v = TooDeep"
  by (cases t; cases "dec v"; simp add: prepare_field_value_def)+

lemma in_texts_of:
  "w \<in> set (texts_of environ file n) \<longleftrightarrow> environ n = Some w \<or> file_entry file n = Some w"
  by (auto simp: texts_of_def split: option.splits)

text \<open>A source raises for the first declared field whose text cannot be decoded.\<close>

lemma source_raises:
  assumes "env_settings_source dec vars model_fields = Inl e"
  shows "\<exists>n w. (n, ListStrField) \<in> set model_fields \<and> vars n = Some w \<and>
           (dec w = Undecodable \<and> e = SettingsError n \<or> dec w = TooDeep \<and> e = RecursionError)"
proof -
  from source_Inl [OF assms] obtain n t v where
    n: "(n, t) \<in> set model_fields" "vars n = Some v"
    "prepare_field_value dec t v = Inl ValueError \<and> e = SettingsError n \<or>
     prepare_field_value dec t v = Inl RecursionLimit \<and> e = RecursionError"
    by blast
  from n(3) have "t = ListStrField"
    and "dec v = Undecodable \<and> e = SettingsError n \<or> dec v = TooDeep \<and> e = RecursionError"
    by (auto simp: prepare_Inl)
  with n(1,2) show ?thesis by blast
qed

lemma supplied_Some:
  "supplied dec t e = Some v \<longleftrightarrow> e = Some v \<and> \<not> (t = ListStrField \<and> dec v = Null)"
  by (cases e) (auto simp: supplied_def)

lemma selected_Some:
  "selected dec environ file (n, t) = Some v \<Longrightarrow>
   (environ n = Some v \<or> file_entry file n = Some v) \<and> \<not> (t = ListStrField \<and> dec v = Null)"
  unfolding selected_def fst_conv snd_conv
  by (cases "supplied dec t (environ n)") (simp_all add: supplied_Some)

lemma merged_selected:
  assumes de: "env_settings_source dec environ model_fields = Inr de"
    and dd: "env_settings_source dec (dotenv_vars file) model_fields = Inr dd"
    and nt: "(n, t) \<in> set model_fields"
  shows "(dd ++ de) n = map_option (read_value dec t) (selected dec environ file (n, t))"
  unfolding merged_value [OF de dd nt] selected_def fst_conv snd_conv
  by (simp split: option.splits)

lemma read_value_invalid:
  "(case read_value dec t v of StrValue s \<Rightarrow> t \<noteq> StrField
        | ListValue xs \<Rightarrow> t \<noteq> ListStrField | BadValue \<Rightarrow> True)
   \<longleftrightarrow> t = ListStrField \<and> (\<forall>xs. dec v \<noteq> Items xs)"
  by (cases t; cases "dec v"; simp add: read_value_def)

lemma merged_invalid:
  assumes de: "env_settings_source dec environ model_fields = Inr de"
    and dd: "env_settings_source dec (dotenv_vars file) model_fields = Inr dd"
    and nt: "(n, t) \<in> set model_fields"
  shows "field_invalid (dd ++ de) (n, t) \<longleftrightarrow> mistyped_selected dec environ file (n, t)"
proof (cases "selected dec environ file (n, t)")
  case None
  then show ?thesis
    unfolding field_invalid_def fst_conv snd_conv merged_selected [OF de dd nt]
      mistyped_selected_def
    by simp
next
  case (Some v)
  from selected_Some [OF Some] have
    v: "environ n = Some v \<or> file_entry file n = Some v" and
    nn: "\<not> (t = ListStrField \<and> dec v = Null)" by simp_all
  from v have "\<exists>fvo. prepare_field_value dec t v = Inr fvo"
  proof
    assume "environ n = Some v"
    with de nt show ?thesis by (rule source_Inr_prepared)
  next
    assume "file_entry file n = Some v"
    then have "dotenv_vars file n = Some v" by (simp only: dotenv_vars_entry)
    with dd nt show ?thesis by (rule source_Inr_prepared)
  qed
  then have pr: "t = ListStrField \<longrightarrow> dec v \<noteq> Undecodable \<and> dec v \<noteq> TooDeep"
    by (auto simp: prepare_field_value_def)
  have "(t = ListStrField \<and> (\<forall>xs. dec v \<noteq> Items xs)) \<longleftrightarrow> (t = ListStrField \<and> dec v = Mistyped)"
    using pr nn by (cases "dec v") auto
  then show ?thesis
    unfolding field_invalid_def fst_conv snd_conv merged_selected [OF de dd nt]
      mistyped_selected_def Some option.map option.case read_value_invalid
    by simp
qed

lemma init_validated:
  assumes de: "env_settings_source dec environ model_fields = Inr de"
    and dd: "env_settings_source dec (dotenv_vars file) model_fields = Inr dd"
  shows "Settings_init dec environ file =
     (if filter (mistyped_selected dec environ file) model_fields \<noteq> []
      then Inl (ValidationError (map fst (filter (mistyped_selected dec environ file) model_fields)))
      else model_validate model_config (dd ++ de) [])"
proof -
  have "field_invalid (dd ++ de) f = mistyped_selected dec environ file f"
    if f: "f \<in> set model_fields" for f
  proof -
    obtain n t where nt: "f = (n, t)" by (cases f)
    from f show ?thesis
      unfolding nt by (rule merged_invalid [OF de dd])
  qed
  then have eq: "filter (field_invalid (dd ++ de)) model_fields
      = filter (mistyped_selected dec environ file) model_fields"
    by (rule filter_cong [OF refl])
  have cfg: "extra model_config = ExtraIgnore"
    by (simp add: model_config_def)
  show ?thesis
    unfolding Settings_init_def de dd sum.case model_validate_def Let_def cfg eq
    by simp
qed


lemma in_set_nonempty: "x \<in> set xs \<Longrightarrow> xs \<noteq> []"
  by (cases xs) simp_all

lemma filter_single:
  "distinct (map fst xs) \<Longrightarrow> (F, t) \<in> set xs \<Longrightarrow> P (F, t) \<Longrightarrow>
   (\<And>n t'. (n, t') \<in> set xs \<Longrightarrow> n \<noteq> F \<Longrightarrow> \<not> P (n, t')) \<Longrightarrow>
   map fst (filter P xs) = [F]"
proof (induction xs)
  case Nil
  then show ?case by simp
next
  case (Cons x xs)
  obtain n t' where x: "x = (n, t')" by (cases x)
  show ?case
  proof (cases "n = F")
    case True
    with Cons.prems(1) x have notin: "F \<notin> fst ` set xs" by simp
    with Cons.prems(2) x True have t': "t' = t" by force
    have "\<not> P y" if "y \<in> set xs" for y
    proof -
      obtain m u where y: "y = (m, u)" by (cases y)
      with that notin have "m \<noteq> F" by force
      with Cons.prems(4) [of m u] that y show ?thesis by simp
    qed
    then have "filter P xs = []" by (simp add: filter_empty_conv)
    with Cons.prems(3) x True t' show ?thesis by simp
  next
    case False
    with Cons.prems(4) [of n t'] x have "\<not> P x" by simp
    moreover have "map fst (filter P xs) = [F]"
    proof (rule Cons.IH)
      from Cons.prems(1) show "distinct (map fst xs)" by simp
      from Cons.prems(2) x False show "(F, t) \<in> set xs" by simp
      show "P (F, t)" by (rule Cons.prems(3))
      show "\<not> P (m, u)" if "(m, u) \<in> set xs" "m \<noteq> F" for m u
        using Cons.prems(4) [of m u] that by simp
    qed
    ultimately show ?thesis by simp
  qed
qed

text \<open>
  Claim C5, as stated, at the list field \<open>DEFAULT_KEYWORDS\<close>: the environment supplies the
  text \<^verbatim>\<open>null\<close>, which is not a list of strings. The provider raises nothing and returns the
  snapshot with the built-in default in that field.
\<close>

theorem invalid_value_counterexample:
  "Settings_init decode_complex_value [''DEFAULT_KEYWORDS'' \<mapsto> ''null''] None
     = Inr Settings_defaults"
  by code_simp

text \<open>
  Claim C5, amended. Let the text that the resolution order selects for a declared field \<open>F\<close>
  (the one supplied by the environment variable, else the one supplied by the override file,
  where the text \<^verbatim>\<open>null\<close> of a list field supplies nothing) be one that cannot be coerced to
  the type of \<open>F\<close>: \<open>F\<close> is a list field and the text is not JSON, is nested too deeply, or is
  JSON of another shape than a list of strings. Then the provider returns no snapshot, so no
  default is substituted; it raises

  \<^item> a \<open>SettingsError\<close>, which names one list field for which the environment or the
    override file holds a text that is not JSON; or
  \<^item> a \<open>ValidationError\<close>, which names, in declaration order, exactly the fields whose
    selected text is JSON of another shape than a list of strings, \<open>F\<close> among them; or
  \<^item> a \<open>RecursionError\<close>, which names no field, and only when some text of a list field is
    nested too deeply.

  The error names \<open>F\<close> when no text of a list field is nested too deeply and no text of another
  list field fails to be JSON; it names \<open>F\<close> and nothing else when moreover no text of another
  list field is JSON of another shape than a list of strings.
\<close>

theorem invalid_value_raises:
  assumes fld: "(F, t) \<in> set model_fields"
    and sel: "selected dec environ file (F, t) = Some v"
    and bad: "uncoercible dec t v"
  shows "\<exists>e. Settings_init dec environ file = Inl e
     \<and> (\<forall>n. e = SettingsError n \<longrightarrow>
           (n, ListStrField) \<in> set model_fields
           \<and> (\<exists>w\<in>set (texts_of environ file n). dec w = Undecodable))
     \<and> (\<forall>ns. e = ValidationError ns \<longrightarrow>
           ns = map fst (filter (mistyped_selected dec environ file) model_fields)
           \<and> F \<in> set ns)
     \<and> (e = RecursionError \<longrightarrow>
           (\<exists>n w. (n, ListStrField) \<in> set model_fields
                  \<and> w \<in> set (texts_of environ file n) \<and> dec w = TooDeep))
     \<and> ((\<forall>n w. (n, ListStrField) \<in> set model_fields \<longrightarrow> w \<in> set (texts_of environ file n)
               \<longrightarrow> dec w \<noteq> TooDeep \<and> (n \<noteq> F \<longrightarrow> dec w \<noteq> Undecodable))
          \<longrightarrow> F \<in> set (error_fields e))
     \<and> ((\<forall>n w. (n, ListStrField) \<in> set model_fields \<longrightarrow> w \<in> set (texts_of environ file n)
               \<longrightarrow> dec w \<noteq> TooDeep \<and> (n \<noteq> F \<longrightarrow> \<not> uncoercible dec ListStrField w))
          \<longrightarrow> error_fields e = [F])"
    (is "\<exists>e. _ = Inl e \<and> ?Q e")
proof -
  from bad have t: "t = ListStrField"
    and dv: "dec v = Undecodable \<or> dec v = TooDeep \<or> dec v = Mistyped"
    by (simp_all add: uncoercible_def)
  from selected_Some [OF sel] have vin: "v \<in> set (texts_of environ file F)"
    by (simp add: in_texts_of)
  have raised: "?Q e"
    if n: "(n, ListStrField) \<in> set model_fields" "w \<in> set (texts_of environ file n)"
      "dec w = Undecodable \<and> e = SettingsError n \<or> dec w = TooDeep \<and> e = RecursionError"
    for e n w
  proof (intro conjI allI impI)
    fix n' assume "e = SettingsError n'"
    with n show "(n', ListStrField) \<in> set model_fields" by auto
    from \<open>e = SettingsError n'\<close> n show "\<exists>w\<in>set (texts_of environ file n'). dec w = Undecodable"
      by auto
  next
    fix ns assume "e = ValidationError ns"
    with n(3) show "ns = map fst (filter (mistyped_selected dec environ file) model_fields)"
      and "F \<in> set ns" by simp_all
  next
    assume "e = RecursionError"
    with n show "\<exists>n w. (n, ListStrField) \<in> set model_fields
        \<and> w \<in> set (texts_of environ file n) \<and> dec w = TooDeep" by auto
  next
    assume c: "\<forall>n w. (n, ListStrField) \<in> set model_fields \<longrightarrow> w \<in> set (texts_of environ file n)
               \<longrightarrow> dec w \<noteq> TooDeep \<and> (n \<noteq> F \<longrightarrow> dec w \<noteq> Undecodable)"
    from c n(1,2) have "dec w \<noteq> TooDeep" "n \<noteq> F \<longrightarrow> dec w \<noteq> Undecodable" by blast+
    with n(3) have "e = SettingsError F" by auto
    then show "F \<in> set (error_fields e)" by (simp add: error_fields_def)
  next
    assume c: "\<forall>n w. (n, ListStrField) \<in> set model_fields \<longrightarrow> w \<in> set (texts_of environ file n)
               \<longrightarrow> dec w \<noteq> TooDeep \<and> (n \<noteq> F \<longrightarrow> \<not> uncoercible dec ListStrField w)"
    from c n(1,2) have "dec w \<noteq> TooDeep" "n \<noteq> F \<longrightarrow> \<not> uncoercible dec ListStrField w" by blast+
    with n(3) have "e = SettingsError F" by (auto simp: uncoercible_def)
    then show "error_fields e = [F]" by (simp add: error_fields_def)
  qed
  show ?thesis
  proof (cases "env_settings_source dec environ model_fields")
    case (Inl e)
    from source_raises [OF Inl] obtain n w where
      n: "(n, ListStrField) \<in> set model_fields" "environ n = Some w"
      "dec w = Undecodable \<and> e = SettingsError n \<or> dec w = TooDeep \<and> e = RecursionError"
      by blast
    from n(2) have "w \<in> set (texts_of environ file n)" by (simp add: in_texts_of)
    with n have "?Q e" by (intro raised)
    moreover have "Settings_init dec environ file = Inl e"
      by (simp add: Settings_init_def Inl)
    ultimately show ?thesis by blast
  next
    case de: (Inr de)
    show ?thesis
    proof (cases "env_settings_source dec (dotenv_vars file) model_fields")
      case (Inl e)
      from source_raises [OF Inl] obtain n w where
        n: "(n, ListStrField) \<in> set model_fields" "dotenv_vars file n = Some w"
        "dec w = Undecodable \<and> e = SettingsError n \<or> dec w = TooDeep \<and> e = RecursionError"
        by blast
      from n(2) have "w \<in> set (texts_of environ file n)"
        by (simp add: in_texts_of dotenv_vars_entry)
      with n have "?Q e" by (intro raised)
      moreover have "Settings_init dec environ file = Inl e"
        by (simp add: Settings_init_def de Inl)
      ultimately show ?thesis by blast
    next
      case dd: (Inr dd)
      let ?P = "mistyped_selected dec environ file"
      let ?ns = "map fst (filter ?P model_fields)"
      from selected_Some [OF sel] have "environ F = Some v \<or> file_entry file F = Some v"
        by simp
      then have "\<exists>fvo. prepare_field_value dec t v = Inr fvo"
      proof
        assume "environ F = Some v"
        with de fld show ?thesis by (rule source_Inr_prepared)
      next
        assume "file_entry file F = Some v"
        then have "dotenv_vars file F = Some v" by (simp only: dotenv_vars_entry)
        with dd fld show ?thesis by (rule source_Inr_prepared)
      qed
      with t dv have mv: "dec v = Mistyped"
        by (auto simp: prepare_field_value_def)
      have PF: "?P (F, t)"
        using sel t mv by (simp add: mistyped_selected_def)
      with fld have Fin: "(F, t) \<in> set (filter ?P model_fields)" by simp
      then have ne: "filter ?P model_fields \<noteq> []" by (rule in_set_nonempty)
      from Fin have Fns: "F \<in> set ?ns" by force
      have init: "Settings_init dec environ file = Inl (ValidationError ?ns)"
        unfolding init_validated [OF de dd] using ne by simp
      have "?Q (ValidationError ?ns)"
      proof (intro conjI allI impI)
        fix ns assume "ValidationError ?ns = ValidationError ns"
        then show "ns = ?ns" by simp
        with Fns show "F \<in> set ns" by simp
      next
        from Fns show "F \<in> set (error_fields (ValidationError ?ns))"
          by (simp add: error_fields_def)
      next
        assume c: "\<forall>n w. (n, ListStrField) \<in> set model_fields \<longrightarrow>
            w \<in> set (texts_of environ file n)
            \<longrightarrow> dec w \<noteq> TooDeep \<and> (n \<noteq> F \<longrightarrow> \<not> uncoercible dec ListStrField w)"
        have "?ns = [F]"
        proof (rule filter_single [where P = "?P" and t = t and xs = model_fields])
          show "distinct (map fst model_fields)" by (rule distinct_fields)
          show "(F, t) \<in> set model_fields" by (rule fld)
          show "?P (F, t)" by (rule PF)
        next
          fix n t' assume nt: "(n, t') \<in> set model_fields" and nF: "n \<noteq> F"
          show "\<not> ?P (n, t')"
          proof
            assume P: "?P (n, t')"
            then obtain w where w: "selected dec environ file (n, t') = Some w"
              "t' = ListStrField" "dec w = Mistyped"
              by (auto simp: mistyped_selected_def split: option.splits)
            from selected_Some [OF w(1)] have "w \<in> set (texts_of environ file n)"
              by (simp add: in_texts_of)
            with c nt w(2) nF have "\<not> uncoercible dec ListStrField w" by blast
            with w(3) show False by (simp add: uncoercible_def)
          qed
        qed
        then show "error_fields (ValidationError ?ns) = [F]"
          by (simp add: error_fields_def)
      qed simp_all
      with init show ?thesis by blast
    qed
  qed
qed

text \<open>The override file gives a list of numbers for the keywords; the environment is
  empty.\<close>

theorem invalid_value_raises_witness:
  "Settings_init decode_complex_value Map.empty (Some [(''DEFAULT_KEYWORDS'', ''[1, 2]'')])
     = Inl (ValidationError [''DEFAULT_KEYWORDS''])
   \<and> (\<exists>e. Settings_init decode_complex_value Map.empty
            (Some [(''DEFAULT_KEYWORDS'', ''[1, 2]'')]) = Inl e
          \<and> error_fields e = [''DEFAULT_KEYWORDS''])"
proof -
  let ?file = "Some [(''DEFAULT_KEYWORDS'', ''[1, 2]'')]"
  let ?F = "''DEFAULT_KEYWORDS''"
  have fld: "(?F, ListStrField) \<in> set model_fields"
    by (simp add: model_fields_def)
  have d: "decode_complex_value ''[1, 2]'' = Mistyped"
    by code_simp
  have sel: "selected decode_complex_value Map.empty ?file (?F, ListStrField) = Some ''[1, 2]''"
    by (simp add: selected_def supplied_def file_entry_def d)
  have bad: "uncoercible decode_complex_value ListStrField ''[1, 2]''"
    by (simp add: uncoercible_def d)
  have tx: "n = ?F \<and> w = ''[1, 2]''" if "w \<in> set (texts_of Map.empty ?file n)" for n w
    using that by (simp add: texts_of_def file_entry_def split: if_splits)
  have alone: "\<forall>n w. (n, ListStrField) \<in> set model_fields \<longrightarrow>
      w \<in> set (texts_of Map.empty ?file n) \<longrightarrow>
      decode_complex_value w \<noteq> TooDeep \<and>
      (n \<noteq> ?F \<longrightarrow> \<not> uncoercible decode_complex_value ListStrField w)"
  proof (intro allI impI)
    fix n w
    assume "w \<in> set (texts_of Map.empty ?file n)"
    from tx [OF this] have n: "n = ?F" and w: "w = ''[1, 2]''" by simp_all
    show "decode_complex_value w \<noteq> TooDeep \<and>
      (n \<noteq> ?F \<longrightarrow> \<not> uncoercible decode_complex_value ListStrField w)"
      unfolding n w d by simp
  qed
  have run: "Settings_init decode_complex_value Map.empty ?file = Inl (ValidationError [?F])"
    by code_simp
  from invalid_value_raises [OF fld sel bad] obtain e where
    e: "Settings_init decode_complex_value Map.empty ?file = Inl e"
    and only: "(\<forall>n w. (n, ListStrField) \<in> set model_fields \<longrightarrow>
      w \<in> set (texts_of Map.empty ?file n) \<longrightarrow>
      decode_complex_value w \<noteq> TooDeep \<and>
      (n \<noteq> ?F \<longrightarrow> \<not> uncoercible decode_complex_value ListStrField w))
      \<longrightarrow> error_fields e = [?F]"
    by blast
  from only alone have "error_fields e = [?F]" by (rule mp)
  with e have "\<exists>e. Settings_init decode_complex_value Map.empty ?file = Inl e
          \<and> error_fields e = [?F]" by (intro exI conjI)
  with run show ?thesis by (intro conjI)
qed

section \<open>No caching across calls\<close>

text \<open>Setting one variable changes the data of a source at that name only.\<close>

lemma source_upd:
  assumes "distinct (map fst fs)" and "(F, t) \<in> set fs"
    and "prepare_field_value dec t v = Inr (Some fv)"
    and "\<And>v0. vars F = Some v0 \<Longrightarrow> \<exists>fvo. prepare_field_value dec t v0 = Inr fvo"
  shows "env_settings_source dec (vars(F \<mapsto> v)) fs =
     (case env_settings_source dec vars fs of
        Inl e \<Rightarrow> Inl e
      | Inr data \<Rightarrow> Inr (data(F \<mapsto> fv)))"
  using assms(1,2)
proof (induction fs)
  case Nil
  then show ?case by simp
next
  case (Cons f fs)
  obtain n t' where f: "f = (n, t')" by (cases f)
  show ?case
  proof (cases "n = F")
    case True
    with Cons.prems f have notin: "F \<notin> fst ` set fs" by simp
    with Cons.prems(2) f True have t': "t' = t" by force
    have "\<forall>m\<in>set (map fst fs). (vars(F \<mapsto> v)) m = vars m"
      using notin by auto
    then have rest: "env_settings_source dec (vars(F \<mapsto> v)) fs = env_settings_source dec vars fs"
      by (rule source_cong)
    show ?thesis
    proof (cases "vars F")
      case None
      then show ?thesis
        unfolding f True t' env_settings_source.simps rest
        by (auto simp add: assms(3) fun_eq_iff split: sum.splits)
    next
      case (Some v0)
      from assms(4) [OF Some] obtain fvo where "prepare_field_value dec t v0 = Inr fvo" ..
      with Some show ?thesis
        unfolding f True t' env_settings_source.simps rest
        by (auto simp add: assms(3) fun_eq_iff split: sum.splits option.splits)
    qed
  next
    case False
    with Cons.prems f have "distinct (map fst fs)" "(F, t) \<in> set fs" by auto
    then have IH: "env_settings_source dec (vars(F \<mapsto> v)) fs =
       (case env_settings_source dec vars fs of
          Inl e \<Rightarrow> Inl e
        | Inr data \<Rightarrow> Inr (data(F \<mapsto> fv)))" by (rule Cons.IH)
    from False have tw: "(d(F \<mapsto> fv))(n \<mapsto> x) = (d(n \<mapsto> x))(F \<mapsto> fv)" for d x
      by (simp add: fun_upd_twist)
    show ?thesis
      unfolding f env_settings_source.simps IH using False
      by (auto simp add: tw fun_eq_iff split: sum.splits option.splits raised.splits)
  qed
qed

lemma field_type_unique:
  "(F, t) \<in> set model_fields \<Longrightarrow> (F, t') \<in> set model_fields \<Longrightarrow> t' = t"
proof -
  assume a: "(F, t) \<in> set model_fields" and b: "(F, t') \<in> set model_fields"
  from a have "map_of model_fields F = Some t"
    by (rule map_of_is_SomeI [OF distinct_fields])
  moreover from b have "map_of model_fields F = Some t'"
    by (rule map_of_is_SomeI [OF distinct_fields])
  ultimately show ?thesis by simp
qed

lemma invalid_upd:
  assumes fld: "(F, t) \<in> set model_fields"
    and ty: "fv = StrValue x \<and> t = StrField \<or> fv = ListValue xs \<and> t = ListStrField"
    and ok: "\<not> field_invalid data (F, t)"
  shows "filter (field_invalid (data(F \<mapsto> fv))) model_fields
       = filter (field_invalid data) model_fields"
proof (rule filter_cong [OF refl])
  fix f assume f: "f \<in> set model_fields"
  obtain n t' where nt: "f = (n, t')" by (cases f)
  show "field_invalid (data(F \<mapsto> fv)) f = field_invalid data f"
  proof (cases "n = F")
    case True
    with f nt fld have "t' = t" by (auto dest: field_type_unique)
    with True nt ok ty show ?thesis
      by (auto simp: field_invalid_def)
  next
    case False
    with nt show ?thesis by (simp add: field_invalid_def)
  qed
qed

lemma validate_upd_str:
  assumes fld: "(F, StrField) \<in> set model_fields"
    and ok: "\<not> field_invalid data (F, StrField)"
  shows "model_validate model_config (data(F \<mapsto> StrValue x)) ex =
     (case model_validate model_config data ex of
        Inl e \<Rightarrow> Inl e
      | Inr s \<Rightarrow> Inr (with_field F (StrValue x) s))"
proof -
  have eq: "filter (field_invalid (data(F \<mapsto> StrValue x))) model_fields
       = filter (field_invalid data) model_fields"
    using fld _ ok by (rule invalid_upd) simp
  have cfg: "extra model_config = ExtraIgnore" by (simp add: model_config_def)
  from model_fields_cases [OF fld] show ?thesis
  proof (elim disjE conjE)
    assume "F = ''REDDIT_CLIENT_ID''" then show ?thesis
      unfolding model_validate_def Let_def eq cfg
      by (simp add: str_or_def list_or_def with_field_def)
  next
    assume "F = ''REDDIT_CLIENT_SECRET''" then show ?thesis
      unfolding model_validate_def Let_def eq cfg
      by (simp add: str_or_def list_or_def with_field_def)
  next
    assume "F = ''REDDIT_USER_AGENT''" then show ?thesis
      unfolding model_validate_def Let_def eq cfg
      by (simp add: str_or_def list_or_def with_field_def)
  next
    assume "F = ''DATABASE_PATH''" then show ?thesis
      unfolding model_validate_def Let_def eq cfg
      by (simp add: str_or_def list_or_def with_field_def)
  next
    assume "F = ''OUTPUT_DIR''" then show ?thesis
      unfolding model_validate_def Let_def eq cfg
      by (simp add: str_or_def list_or_def with_field_def)
  qed simp_all
qed

lemma validate_upd_list:
  assumes fld: "(F, ListStrField) \<in> set model_fields"
    and ok: "\<not> field_invalid data (F, ListStrField)"
  shows "model_validate model_config (data(F \<mapsto> ListValue xs)) ex =
     (case model_validate model_config data ex of
        Inl e \<Rightarrow> Inl e
      | Inr s \<Rightarrow> Inr (with_field F (ListValue xs) s))"
proof -
  have eq: "filter (field_invalid (data(F \<mapsto> ListValue xs))) model_fields
       = filter (field_invalid data) model_fields"
    using fld _ ok by (rule invalid_upd) simp
  have cfg: "extra model_config = ExtraIgnore" by (simp add: model_config_def)
  from model_fields_cases [OF fld] show ?thesis
  proof (elim disjE conjE)
    assume "F = ''DEFAULT_SUBREDDITS''" then show ?thesis
      unfolding model_validate_def Let_def eq cfg
      by (simp add: str_or_def list_or_def with_field_def)
  next
    assume "F = ''DEFAULT_KEYWORDS''" then show ?thesis
      unfolding model_validate_def Let_def eq cfg
      by (simp add: str_or_def list_or_def with_field_def)
  qed simp_all
qed

text \<open>Setting the environment variable of a field whose new text can be read, on a loader
  whose old text for that field did not raise, replaces that field and nothing else.\<close>

lemma init_upd:
  assumes fld: "(F, t) \<in> set model_fields"
    and ty: "t = StrField \<and> fv = StrValue v
           \<or> t = ListStrField \<and> dec v = Items xs \<and> fv = ListValue xs"
    and old: "t = StrField \<or> (\<exists>s1. Settings_init dec environ file = Inr s1)"
  shows "Settings_init dec (environ(F \<mapsto> v)) file =
     (case Settings_init dec environ file of
        Inl e \<Rightarrow> Inl e
      | Inr s \<Rightarrow> Inr (with_field F fv s))"
proof -
  from ty have prep: "prepare_field_value dec t v = Inr (Some fv)"
    by (auto simp: prepare_field_value_def)
  have envok: "\<exists>fvo. prepare_field_value dec t v0 = Inr fvo" if v0: "environ F = Some v0" for v0
    using old
  proof
    assume "t = StrField"
    then show ?thesis by (simp add: prepare_field_value_def)
  next
    assume "\<exists>s1. Settings_init dec environ file = Inr s1"
    then obtain s1 where "Settings_init dec environ file = Inr s1" ..
    then obtain de where "env_settings_source dec environ model_fields = Inr de"
      by (rule init_Inr)
    then show ?thesis using fld v0 by (rule source_Inr_prepared)
  qed
  have src: "env_settings_source dec (environ(F \<mapsto> v)) model_fields =
     (case env_settings_source dec environ model_fields of
        Inl e \<Rightarrow> Inl e
      | Inr data \<Rightarrow> Inr (data(F \<mapsto> fv)))"
    using distinct_fields fld prep envok by (rule source_upd)
  show ?thesis
  proof (cases "env_settings_source dec environ model_fields")
    case (Inl e)
    then show ?thesis
      unfolding Settings_init_def src by simp
  next
    case de: (Inr de)
    show ?thesis
    proof (cases "env_settings_source dec (dotenv_vars file) model_fields")
      case (Inl e)
      then show ?thesis
        unfolding Settings_init_def src de by simp
    next
      case dd: (Inr dd)
      have ok: "\<not> field_invalid (dd ++ de) (F, t)"
        using old
      proof
        assume "t = StrField"
        then show ?thesis
          unfolding merged_invalid [OF de dd fld]
          by (simp add: mistyped_selected_def split: option.splits)
      next
        assume "\<exists>s1. Settings_init dec environ file = Inr s1"
        then obtain s1 where "model_validate model_config (dd ++ de)
            (dotenv_extra model_fields file) = Inr s1"
          unfolding Settings_init_def de dd by auto
        from validate_Inr(1) [OF this] fld show ?thesis by blast
      qed
      have add: "dd ++ de(F \<mapsto> y) = (dd ++ de)(F \<mapsto> y)" for y
        by (rule map_add_upd)
      from ty show ?thesis
      proof (elim disjE conjE)
        assume t: "t = StrField" and fv: "fv = StrValue v"
        from fld ok show ?thesis
          unfolding Settings_init_def src de dd sum.case add t fv
          by (rule validate_upd_str)
      next
        assume t: "t = ListStrField" and fv: "fv = ListValue xs"
        from fld ok show ?thesis
          unfolding Settings_init_def src de dd sum.case add t fv
          by (rule validate_upd_list)
      qed
    qed
  qed
qed

text \<open>
  Claim C7. Two calls in sequence, with the environment variable of a declared field \<open>F\<close> set
  to \<open>v\<close> between them. The second call does not return what the first call computed:

  \<^item> for a string field, the second call raises what the first call raised, and otherwise
    returns the snapshot of the first call with \<open>F\<close> replaced by \<open>v\<close>;
  \<^item> for a list field and a text \<open>v\<close> that decodes to a list of strings, the second call
    returns the snapshot of the first call, when there is one, with \<open>F\<close> replaced by that list;
  \<^item> whenever the second call returns a snapshot, its field \<open>F\<close> holds what the resolution
    order gives in the mutated environment, which is \<open>v\<close> read at the type of the field unless
    \<open>F\<close> is a list field and \<open>v\<close> is the text \<^verbatim>\<open>null\<close>.
\<close>

theorem get_settings_no_cache:
  assumes fld: "(F, t) \<in> set model_fields"
  shows "(let (r1, p1) = get_settings dec p;
              (r2, p2) = get_settings dec (setenv F v p1)
          in (t = StrField \<longrightarrow>
                r2 = (case r1 of Inl e \<Rightarrow> Inl e
                      | Inr s1 \<Rightarrow> Inr (with_field F (StrValue v) s1)))
           \<and> (t = ListStrField \<longrightarrow>
                (\<forall>xs s1. dec v = Items xs \<longrightarrow> r1 = Inr s1 \<longrightarrow>
                   r2 = Inr (with_field F (ListValue xs) s1)))
           \<and> (\<forall>s2. r2 = Inr s2 \<longrightarrow>
                field_of s2 F
                  = precedence_spec dec ((os_environ p)(F \<mapsto> v)) (dotenv_file p) (F, t))
           \<and> (\<forall>s2. r2 = Inr s2 \<longrightarrow> supplied dec t (Some v) = Some v \<longrightarrow>
                field_of s2 F = read_value dec t v))"
proof -
  let ?r1 = "Settings_init dec (os_environ p) (dotenv_file p)"
  let ?r2 = "Settings_init dec ((os_environ p)(F \<mapsto> v)) (dotenv_file p)"
  have a: "?r2 = (case ?r1 of Inl e \<Rightarrow> Inl e | Inr s1 \<Rightarrow> Inr (with_field F (StrValue v) s1))"
    if "t = StrField"
    using fld _ _ by (rule init_upd) (simp_all add: that)
  have b: "?r2 = Inr (with_field F (ListValue xs) s1)"
    if "t = ListStrField" "dec v = Items xs" "?r1 = Inr s1" for xs s1
  proof -
    have "?r2 = (case ?r1 of Inl e \<Rightarrow> Inl e | Inr s \<Rightarrow> Inr (with_field F (ListValue xs) s))"
      using fld _ _ by (rule init_upd) (simp_all add: that)
    with that(3) show ?thesis by simp
  qed
  have c: "field_of s2 F
      = precedence_spec dec ((os_environ p)(F \<mapsto> v)) (dotenv_file p) (F, t)"
    if "?r2 = Inr s2" for s2
    using init_field [OF that fld] by simp
  have d: "field_of s2 F = read_value dec t v"
    if "?r2 = Inr s2" "supplied dec t (Some v) = Some v" for s2
    unfolding c [OF that(1)] by (simp add: precedence_spec_def that(2))
  have e: "os_environ (p\<lparr>os_environ := X\<rparr>) = X"
    "dotenv_file (p\<lparr>os_environ := X\<rparr>) = dotenv_file p" for X
    by simp_all
  show ?thesis
    unfolding get_settings_def setenv_def Let_def split_conv e
    using a b c d by blast
qed

text \<open>The database path is set in the environment before the first call and changed before
  the second.\<close>

theorem get_settings_no_cache_witness:
  "fst (get_settings decode_complex_value
          \<lparr>os_environ = [''DATABASE_PATH'' \<mapsto> ''old.db''], dotenv_file = None\<rparr>)
     = Inr (Settings_defaults\<lparr>DATABASE_PATH := ''old.db''\<rparr>)
   \<and> fst (get_settings decode_complex_value
            (setenv ''DATABASE_PATH'' ''new.db''
               (snd (get_settings decode_complex_value
                  \<lparr>os_environ = [''DATABASE_PATH'' \<mapsto> ''old.db''], dotenv_file = None\<rparr>))))
     = Inr (Settings_defaults\<lparr>DATABASE_PATH := ''new.db''\<rparr>)"
proof -
  let ?p = "\<lparr>os_environ = [''DATABASE_PATH'' \<mapsto> ''old.db''], dotenv_file = None\<rparr>"
  let ?r1 = "fst (get_settings decode_complex_value ?p)"
  let ?r2 = "fst (get_settings decode_complex_value
            (setenv ''DATABASE_PATH'' ''new.db'' (snd (get_settings decode_complex_value ?p))))"
  have fld: "(''DATABASE_PATH'', StrField) \<in> set model_fields"
    by (simp add: model_fields_def)
  have r1: "?r1 = Inr (Settings_defaults\<lparr>DATABASE_PATH := ''old.db''\<rparr>)"
    by code_simp
  have "StrField = StrField \<longrightarrow>
      ?r2 = (case ?r1 of Inl e \<Rightarrow> Inl e
             | Inr s1 \<Rightarrow> Inr (with_field ''DATABASE_PATH'' (StrValue ''new.db'') s1))"
    using get_settings_no_cache [OF fld, of decode_complex_value ?p "''new.db''"]
    unfolding Let_def split_beta by (rule conjunct1)
  then have "?r2 = (case ?r1 of Inl e \<Rightarrow> Inl e
             | Inr s1 \<Rightarrow> Inr (with_field ''DATABASE_PATH'' (StrValue ''new.db'') s1))"
    by simp
  then have r2: "?r2 = Inr (Settings_defaults\<lparr>DATABASE_PATH := ''new.db''\<rparr>)"
    unfolding r1 by (simp add: with_field_def)
  from r1 r2 show ?thesis by (rule conjI)
qed

section \<open>Unknown keys\<close>

text \<open>
  Claim C8. Keys outside the seven field names change nothing: two environments that agree on
  the field names, with two override files (or none) that agree on the field names, give the
  same outcome, error or snapshot, so such a key neither alters a field nor raises; and a
  returned snapshot carries no key besides its fields.
\<close>

theorem unknown_keys_ignored:
  assumes "\<forall>n\<in>set (map fst model_fields). environ n = environ' n"
    and "\<forall>n\<in>set (map fst model_fields). dotenv_vars file n = dotenv_vars file' n"
  shows "Settings_init dec environ file = Settings_init dec environ' file' \<and>
         (\<forall>s. Settings_init dec environ file = Inr s \<longrightarrow> model_extra s = [])"
  using init_cong [OF assms] init_no_extra by blast

text \<open>Unknown keys in the environment and in the override file, beside one known key.\<close>

theorem unknown_keys_ignored_witness:
  "Settings_init decode_complex_value
     [''OUTPUT_DIR'' \<mapsto> ''out'', ''EDITOR'' \<mapsto> ''vi'']
     (Some [(''API_TOKEN'', ''secret''), (''database_path'', ''lower.db'')])
   = Settings_init decode_complex_value [''OUTPUT_DIR'' \<mapsto> ''out''] None
   \<and> Settings_init decode_complex_value [''OUTPUT_DIR'' \<mapsto> ''out''] None
     = Inr (Settings_defaults\<lparr>OUTPUT_DIR := ''out''\<rparr>)
   \<and> model_extra (Settings_defaults\<lparr>OUTPUT_DIR := ''out''\<rparr>) = []"
proof -
  have h1: "\<forall>n\<in>set (map fst model_fields).
      [''OUTPUT_DIR'' \<mapsto> ''out'', ''EDITOR'' \<mapsto> ''vi''] n = [''OUTPUT_DIR'' \<mapsto> ''out''] n"
    by (simp add: model_fields_def)
  have h2: "\<forall>n\<in>set (map fst model_fields).
      dotenv_vars (Some [(''API_TOKEN'', ''secret''), (''database_path'', ''lower.db'')]) n
      = dotenv_vars None n"
    by (simp add: model_fields_def dotenv_vars_def)
  have run: "Settings_init decode_complex_value [''OUTPUT_DIR'' \<mapsto> ''out''] None
     = Inr (Settings_defaults\<lparr>OUTPUT_DIR := ''out''\<rparr>)"
    by code_simp
  note th = unknown_keys_ignored [OF h1 h2, of decode_complex_value]
  have a: "Settings_init decode_complex_value
     [''OUTPUT_DIR'' \<mapsto> ''out'', ''EDITOR'' \<mapsto> ''vi'']
     (Some [(''API_TOKEN'', ''secret''), (''database_path'', ''lower.db'')])
   = Settings_init decode_complex_value [''OUTPUT_DIR'' \<mapsto> ''out''] None"
    using th by (rule conjunct1)
  have c: "model_extra (Settings_defaults\<lparr>OUTPUT_DIR := ''out''\<rparr>) = []"
    by (rule conjunct2 [OF th, rule_format, OF trans [OF a run]])
  show ?thesis by (intro conjI a run c)
qed

section \<open>The encoding of string lists: proofs\<close>

lemma simple_char_facts:
  assumes "simple_char c"
  shows "c \<noteq> CHR 0x22" "c \<noteq> CHR 0x5C" "\<not> (of_char c :: nat) < 32"
    "escape_char (of_char c) = [c]" "(of_char c :: nat) < 0xC0"
proof -
  from assms show a: "c \<noteq> CHR 0x22" and b: "c \<noteq> CHR 0x5C" and r: "\<not> (of_char c :: nat) < 32"
    by (simp_all add: simple_char_def)
  from assms have lo: "32 \<le> (of_char c :: nat)" and hi: "(of_char c :: nat) \<le> 126"
    by (simp_all add: simple_char_def)
  from hi show "(of_char c :: nat) < 0xC0" by simp
  from a have "(of_char c :: nat) \<noteq> of_char (CHR 0x22)"
    by (simp only: of_char_eq_iff not_False_eq_True)
  then have a': "(of_char c :: nat) \<noteq> 0x22" by simp
  from b have "(of_char c :: nat) \<noteq> of_char (CHR 0x5C)"
    by (simp only: of_char_eq_iff not_False_eq_True)
  then have b': "(of_char c :: nat) \<noteq> 0x5C" by simp
  from a' b' lo hi show "escape_char (of_char c) = [c]"
    by (simp add: escape_char_def)
qed

lemma utf8_decode_simple: "simple_string s \<Longrightarrow> utf8_decode s = map of_char s"
proof (induction s)
  case Nil
  show ?case by simp
next
  case (Cons c s)
  then have c: "simple_char c" and s: "simple_string s"
    by (simp_all add: simple_string_def)
  from simple_char_facts(5) [OF c]
  have "\<not> 0xF0 \<le> (of_char c :: nat)" "\<not> 0xE0 \<le> (of_char c :: nat)"
    "\<not> 0xC0 \<le> (of_char c :: nat)"
    by simp_all
  with Cons.IH [OF s] show ?case by (simp add: Let_def)
qed

lemma escape_simple: "simple_string s \<Longrightarrow> concat (map escape_char (utf8_decode s)) = s"
proof -
  assume s: "simple_string s"
  then have "concat (map escape_char (map of_char s)) = s"
    by (induction s) (simp_all add: simple_string_def simple_char_facts)
  with s show ?thesis by (simp add: utf8_decode_simple)
qed

text \<open>A simple string between quotes is scanned back.\<close>

lemma scanstring_simple:
  "simple_string s \<Longrightarrow> scanstring (s @ CHR 0x22 # rest) = Some (s, rest)"
  by (induction s) (simp_all add: simple_string_def simple_char_facts prepend_def)

lemma scan_once_string:
  assumes "simple_string s"
  shows "scan_once (Suc k) (encode_basestring_ascii s @ rest) = Some (JString s, rest)"
  using scanstring_simple [OF assms, of rest]
  by (simp add: encode_basestring_ascii_def escape_simple [OF assms])

lemma skip_ws_quote: "skip_ws (encode_basestring_ascii s @ rest) = encode_basestring_ascii s @ rest"
  by (simp add: skip_ws_def encode_basestring_ascii_def is_ws_def)

lemma join_items_Cons:
  "join_items (x # xs) = (if xs = [] then x else x @ '', '' @ join_items xs)"
  by (cases xs) simp_all

text \<open>The elements of a non-empty list of simple strings are read back, given a bound above
  their number.\<close>

lemma JSONArray_items:
  "list_all simple_string (x # xs) \<Longrightarrow> length (x # xs) < k \<Longrightarrow>
   JSONArray k (join_items (map encode_basestring_ascii (x # xs)) @ CHR '']'' # rest)
     = Some (map JString (x # xs), rest)"
proof (induction xs arbitrary: x k)
  case Nil
  then obtain k' where k: "k = Suc (Suc k')" by (cases k; cases "k - 1") auto
  from Nil have sx: "simple_string x" by simp
  show ?case
    unfolding k by (simp add: scan_once_string [OF sx] skip_ws_def is_ws_def)
next
  case (Cons y ys)
  then obtain k' where k: "k = Suc (Suc k')" by (cases k; cases "k - 1") auto
  from Cons.prems have sx: "simple_string x" and rest: "list_all simple_string (y # ys)"
    by simp_all
  from Cons.prems k have len: "length (y # ys) < Suc k'" by simp
  have tail: "join_items (map encode_basestring_ascii (y # ys)) =
      encode_basestring_ascii y @ (if ys = [] then [] else '', '' @ join_items (map encode_basestring_ascii ys))"
    by (simp add: join_items_Cons)
  have sk: "skip_ws (CHR '' '' # join_items (map encode_basestring_ascii (y # ys)) @ CHR '']'' # rest)
      = join_items (map encode_basestring_ascii (y # ys)) @ CHR '']'' # rest"
    unfolding tail append_assoc
    by (subst (2) skip_ws_quote [symmetric]) (simp add: skip_ws_def is_ws_def)
  have step: "JSONArray (Suc (Suc k'))
        (encode_basestring_ascii x @ '', '' @ join_items (map encode_basestring_ascii (y # ys)) @ CHR '']'' # rest)
      = prepend (JString x)
          (JSONArray (Suc k') (join_items (map encode_basestring_ascii (y # ys)) @ CHR '']'' # rest))"
    using sk by (simp add: scan_once_string [OF sx] skip_ws_def is_ws_def)
  show ?case
    unfolding k using step Cons.IH [OF rest len] by (simp add: prepend_def)
qed

lemma str_items_strings: "str_items (map JString xs) = Some xs"
  by (induction xs) simp_all

text \<open>Decoding the text written for a list of simple strings gives the list back.\<close>

lemma decode_dumps:
  assumes "list_all simple_string xs"
  shows "decode_complex_value (json_dumps xs) = Items xs"
proof (cases xs)
  case Nil
  have "decode_complex_value (json_dumps []) = Items []"
    by code_simp
  with Nil show ?thesis by simp
next
  case (Cons y ys)
  define body where "body = join_items (map encode_basestring_ascii (y # ys))"
  define n where "n = 2 * length (json_dumps xs)"
  have jtext: "json_dumps xs = CHR ''['' # body @ '']''"
    by (simp add: json_dumps_def Cons body_def)
  obtain t where hd: "body = CHR 0x22 # t"
    unfolding body_def by (cases ys) (simp_all add: encode_basestring_ascii_def)
  have "length (z # zs) \<le> length (join_items (map encode_basestring_ascii (z # zs)))" for z zs
  proof (induction zs arbitrary: z)
    case Nil
    show ?case by (simp add: encode_basestring_ascii_def)
  next
    case (Cons w ws)
    from Cons [of w] show ?case by (simp add: encode_basestring_ascii_def)
  qed
  then have "length (y # ys) \<le> length body"
    unfolding body_def .
  then have bound: "length (y # ys) < n"
    unfolding n_def jtext by simp
  have arr: "JSONArray n (body @ CHR '']'' # []) = Some (map JString (y # ys), [])"
    unfolding body_def using assms bound unfolding Cons by (rule JSONArray_items)
  have sk: "skip_ws (body @ '']'') = CHR 0x22 # t @ '']''"
    unfolding hd by (simp add: skip_ws_def is_ws_def)
  have so: "scan_once (Suc n) (CHR ''['' # body @ '']'') = Some (JArray (map JString xs), [])"
    using arr [unfolded hd] by (simp add: sk Cons)
  have sw: "skip_ws (json_dumps xs) = json_dumps xs"
    by (simp add: jtext skip_ws_def is_ws_def)
  have "json_loads (json_dumps xs) = Some (JArray (map JString xs))"
    unfolding json_loads_def n_def [symmetric] sw unfolding jtext so
    by (simp add: skip_ws_def)
  then show ?thesis
    by (simp add: decode_complex_value_def str_items_strings)
qed

text \<open>
  Claim C6. The external encoding of a list field is JSON. For every list of simple strings
  (printable ASCII without the quote and the backslash), the text that \<^verbatim>\<open>json.dumps\<close> writes
  for it, supplied as the one environment variable of a list field, makes the provider return
  the snapshot whose field is exactly that list, in its order, the other fields at their
  defaults.
\<close>

theorem list_encoding_roundtrip:
  assumes "(F, ListStrField) \<in> set model_fields" and "list_all simple_string xs"
  shows "Settings_init decode_complex_value [F \<mapsto> json_dumps xs] None
           = Inr (with_field F (ListValue xs) Settings_defaults)
         \<and> field_of (with_field F (ListValue xs) Settings_defaults) F = ListValue xs"
proof
  show "Settings_init decode_complex_value [F \<mapsto> json_dumps xs] None
      = Inr (with_field F (ListValue xs) Settings_defaults)"
    by (simp add: single_list [OF assms(1)] decode_dumps [OF assms(2)])
  from model_fields_cases [OF assms(1)]
  have "F = ''DEFAULT_SUBREDDITS'' \<or> F = ''DEFAULT_KEYWORDS''" by simp
  then show "field_of (with_field F (ListValue xs) Settings_defaults) F = ListValue xs"
    by (auto simp: field_of_def with_field_def)
qed

text \<open>Two keyword phrases of the test fixtures.\<close>

theorem list_encoding_roundtrip_witness:
  "Settings_init decode_complex_value
     [''DEFAULT_KEYWORDS'' \<mapsto> json_dumps [''would pay'', ''struggling with'']] None
     = Inr (Settings_defaults\<lparr>DEFAULT_KEYWORDS := [''would pay'', ''struggling with'']\<rparr>)
   \<and> DEFAULT_KEYWORDS (Settings_defaults\<lparr>DEFAULT_KEYWORDS := [''would pay'', ''struggling with'']\<rparr>)
     = [''would pay'', ''struggling with'']"
proof -
  have fld: "(''DEFAULT_KEYWORDS'', ListStrField) \<in> set model_fields"
    by (simp add: model_fields_def)
  have simple: "list_all simple_string [''would pay'', ''struggling with'']"
    by (simp add: simple_string_def simple_char_def)
  have wf: "with_field ''DEFAULT_KEYWORDS'' (ListValue [''would pay'', ''struggling with''])
        Settings_defaults
      = Settings_defaults\<lparr>DEFAULT_KEYWORDS := [''would pay'', ''struggling with'']\<rparr>"
    by (simp add: with_field_def)
  from conjunct1 [OF list_encoding_roundtrip [OF fld simple], unfolded wf]
  show ?thesis by simp
qed

section \<open>The decoder: every call consumes a character\<close>

lemma skip_ws_length: "length (skip_ws s) \<le> length s"
  by (simp add: skip_ws_def length_dropWhile_le)

lemma skip_ws_Cons_length: "skip_ws s = d # r \<Longrightarrow> length r < length s"
  using skip_ws_length [of s] by simp

lemma skip_ws_less: "n < length (skip_ws s) \<Longrightarrow> n < length s"
  using skip_ws_length [of s] by simp

lemma dropWhile_length_less: "length (dropWhile P r) < Suc (length r)"
  by (simp add: length_dropWhile_le le_imp_less_Suc)

lemma prepend_Some:
  "prepend x p = Some (ys, r) \<Longrightarrow> \<exists>xs. p = Some (xs, r) \<and> ys = x # xs"
  by (auto simp: prepend_def split: option.splits)

lemma prepend_list_Some:
  "prepend_list zs p = Some (ys, r) \<Longrightarrow> \<exists>xs. p = Some (xs, r) \<and> ys = zs @ xs"
  by (auto simp: prepend_list_def split: option.splits)

lemma case_four:
  "(case r of h3 # h2 # h1 # h0 # r' \<Rightarrow> f h3 h2 h1 h0 r' | _ \<Rightarrow> None) = Some y \<Longrightarrow>
   \<exists>h3 h2 h1 h0 r'. r = h3 # h2 # h1 # h0 # r' \<and> f h3 h2 h1 h0 r' = Some y"
  by (auto split: list.splits)

lemma case_six:
  "(case r of b # u # l3 # l2 # l1 # l0 # r' \<Rightarrow> f l3 l2 l1 l0 r' | _ \<Rightarrow> None) = Some y \<Longrightarrow>
   \<exists>b u l3 l2 l1 l0 r'. r = b # u # l3 # l2 # l1 # l0 # r' \<and> f l3 l2 l1 l0 r' = Some y"
  by (auto split: list.splits)

lemma scanstring_length: "scanstring s = Some (x, r) \<Longrightarrow> length r < length s"
proof (induction s arbitrary: x r rule: length_induct)
  case (1 s)
  show ?case
  proof (cases s)
    case Nil
    with "1.prems" show ?thesis by simp
  next
    case (Cons c cs)
    have IH: "length r' < length ys"
      if "scanstring ys = Some (x', r')" "length ys \<le> length cs" for ys x' r'
      using "1.IH" that Cons by auto
    have tail: "length r < length s"
      if "prepend_list zs (scanstring ys) = Some (x, r)" "length ys \<le> length cs" for zs ys
    proof -
      from prepend_list_Some [OF that(1)] obtain xs where "scanstring ys = Some (xs, r)" by blast
      from IH [OF this that(2)] that(2) Cons show ?thesis by simp
    qed
    note eq = "1.prems" [unfolded Cons scanstring.simps]
    show ?thesis
    proof (cases "c = CHR 0x22")
      case True
      with eq Cons show ?thesis by simp
    next
      case nq: False
      show ?thesis
      proof (cases "c = CHR 0x5C")
        case False
        with nq eq have "prepend c (scanstring cs) = Some (x, r)"
          by (simp split: if_splits)
        from prepend_Some [OF this] obtain xs where "scanstring cs = Some (xs, r)" by blast
        from IH [OF this] Cons show ?thesis by simp
      next
        case bs: True
        with nq eq obtain e r0 where cs: "cs = e # r0"
          by (cases cs) simp_all
        note eq1 = eq [unfolded cs, simplified nq bs, simplified]
        show ?thesis
        proof (cases "e = CHR ''u''")
          case False
          with eq1 obtain ch where "prepend ch (scanstring r0) = Some (x, r)"
            by (auto split: option.splits)
          from prepend_Some [OF this] obtain xs where "scanstring r0 = Some (xs, r)" by blast
          from IH [OF this] cs Cons show ?thesis by simp
        next
          case u: True
          with eq1 have
            "(case r0 of
                h3 # h2 # h1 # h0 # r' \<Rightarrow>
                  (case decode_uXXXX h3 h2 h1 h0 of
                     None \<Rightarrow> None
                   | Some uni \<Rightarrow>
                       if 0xD800 \<le> uni \<and> uni \<le> 0xDBFF \<and> take 2 r' = [CHR 0x5C, CHR ''u'']
                       then
                         (case r' of
                            b # u # l3 # l2 # l1 # l0 # r'' \<Rightarrow>
                              (case decode_uXXXX l3 l2 l1 l0 of
                                 None \<Rightarrow> None
                               | Some uni2 \<Rightarrow>
                                   if 0xDC00 \<le> uni2 \<and> uni2 \<le> 0xDFFF
                                   then prepend_list
                                     (utf8_encode
                                        (0x10000 + (uni - 0xD800) * 1024 + (uni2 - 0xDC00)))
                                     (scanstring r'')
                                   else prepend_list (utf8_encode uni) (scanstring r'))
                          | _ \<Rightarrow> None)
                       else prepend_list (utf8_encode uni) (scanstring r'))
              | _ \<Rightarrow> None) = Some (x, r)"
            by simp
          from case_four [OF this] obtain h3 h2 h1 h0 r' where
            r0: "r0 = h3 # h2 # h1 # h0 # r'" and
            eq2: "(case decode_uXXXX h3 h2 h1 h0 of
                     None \<Rightarrow> None
                   | Some uni \<Rightarrow>
                       if 0xD800 \<le> uni \<and> uni \<le> 0xDBFF \<and> take 2 r' = [CHR 0x5C, CHR ''u'']
                       then
                         (case r' of
                            b # u # l3 # l2 # l1 # l0 # r'' \<Rightarrow>
                              (case decode_uXXXX l3 l2 l1 l0 of
                                 None \<Rightarrow> None
                               | Some uni2 \<Rightarrow>
                                   if 0xDC00 \<le> uni2 \<and> uni2 \<le> 0xDFFF
                                   then prepend_list
                                     (utf8_encode
                                        (0x10000 + (uni - 0xD800) * 1024 + (uni2 - 0xDC00)))
                                     (scanstring r'')
                                   else prepend_list (utf8_encode uni) (scanstring r'))
                          | _ \<Rightarrow> None)
                       else prepend_list (utf8_encode uni) (scanstring r')) = Some (x, r)"
            by blast
          from eq2 obtain uni where uni: "decode_uXXXX h3 h2 h1 h0 = Some uni"
            by (cases "decode_uXXXX h3 h2 h1 h0") simp_all
          have len': "length r' \<le> length cs" by (simp add: cs r0)
          show ?thesis
          proof (cases "0xD800 \<le> uni \<and> uni \<le> 0xDBFF \<and> take 2 r' = [CHR 0x5C, CHR ''u'']")
            case False
            with eq2 uni have "prepend_list (utf8_encode uni) (scanstring r') = Some (x, r)"
              by simp
            from tail [OF this len'] show ?thesis .
          next
            case True
            with eq2 uni have
              "(case r' of
                  b # u # l3 # l2 # l1 # l0 # r'' \<Rightarrow>
                    (case decode_uXXXX l3 l2 l1 l0 of
                       None \<Rightarrow> None
                     | Some uni2 \<Rightarrow>
                         if 0xDC00 \<le> uni2 \<and> uni2 \<le> 0xDFFF
                         then prepend_list
                           (utf8_encode (0x10000 + (uni - 0xD800) * 1024 + (uni2 - 0xDC00)))
                           (scanstring r'')
                         else prepend_list (utf8_encode uni) (scanstring r'))
                | _ \<Rightarrow> None) = Some (x, r)"
              by simp
            from case_six [OF this] obtain b u l3 l2 l1 l0 r'' where
              r': "r' = b # u # l3 # l2 # l1 # l0 # r''" and
              eq3: "(case decode_uXXXX l3 l2 l1 l0 of
                       None \<Rightarrow> None
                     | Some uni2 \<Rightarrow>
                         if 0xDC00 \<le> uni2 \<and> uni2 \<le> 0xDFFF
                         then prepend_list
                           (utf8_encode (0x10000 + (uni - 0xD800) * 1024 + (uni2 - 0xDC00)))
                           (scanstring r'')
                         else prepend_list (utf8_encode uni) (scanstring r')) = Some (x, r)"
              by blast
            from eq3 obtain uni2 where uni2: "decode_uXXXX l3 l2 l1 l0 = Some uni2"
              by (cases "decode_uXXXX l3 l2 l1 l0") simp_all
            have len'': "length r'' \<le> length cs" by (simp add: cs r0 r')
            show ?thesis
            proof (cases "0xDC00 \<le> uni2 \<and> uni2 \<le> 0xDFFF")
              case True
              with eq3 uni2 have
                "prepend_list
                   (utf8_encode (0x10000 + (uni - 0xD800) * 1024 + (uni2 - 0xDC00)))
                   (scanstring r'') = Some (x, r)"
                by simp
              from tail [OF this len''] show ?thesis .
            next
              case False
              with eq3 uni2 have "prepend_list (utf8_encode uni) (scanstring r') = Some (x, r)"
                by simp
              from tail [OF this len'] show ?thesis .
            qed
          qed
        qed
      qed
    qed
  qed
qed

lemma literal_length: "literal w s = Some r \<Longrightarrow> length s = length w + length r"
proof -
  assume "literal w s = Some r"
  then have t: "take (length w) s = w" and r: "r = drop (length w) s"
    by (auto simp: literal_def split: if_splits)
  from t have "length (take (length w) s) = length w" by simp
  then have "length w \<le> length s" by simp
  with r show ?thesis by simp
qed

lemma match_number_length: "match_number s = Some r \<Longrightarrow> length r < length s"
proof -
  assume m: "match_number s = Some r"
  define s1 where "s1 = (case s of [] \<Rightarrow> [] | c # r \<Rightarrow> if c = CHR ''-'' then r else s)"
  define int_rest where "int_rest = (case s1 of
                        [] \<Rightarrow> None
                      | c # r \<Rightarrow> if c = CHR ''0'' then Some r
                                 else if is_digit c then Some (dropWhile is_digit r)
                                 else None)"
  have l1: "length s1 \<le> length s"
    by (simp add: s1_def split: list.splits)
  from m obtain s2 where s2: "int_rest = Some s2"
    unfolding match_number_def Let_def s1_def [symmetric] int_rest_def [symmetric]
    by (cases int_rest) simp_all
  have l2: "length s2 < length s1"
    using s2 unfolding int_rest_def
    by (auto split: list.splits if_splits simp: dropWhile_length_less)
  define s3 where "s3 = (case s2 of
                          c # d # r \<Rightarrow> if c = CHR ''.'' \<and> is_digit d then dropWhile is_digit r else s2
                        | _ \<Rightarrow> s2)"
  have l3: "length s3 \<le> length s2"
    unfolding s3_def
    by (auto split: list.splits simp: length_dropWhile_le le_SucI)
  define s4 where "s4 = (case s3 of
                          [] \<Rightarrow> s3
                        | c # r \<Rightarrow>
                            if c = CHR ''e'' \<or> c = CHR ''E'' then
                              (case (case r of
                                           [] \<Rightarrow> r
                                         | g # r0 \<Rightarrow> if g = CHR ''+'' \<or> g = CHR ''-'' then r0 else r) of
                                    [] \<Rightarrow> s3
                                  | d # r2 \<Rightarrow> if is_digit d then dropWhile is_digit r2 else s3)
                            else s3)"
  have l4: "length s4 \<le> length s3"
    unfolding s4_def Let_def
    by (auto split: list.splits if_splits simp: length_dropWhile_le le_SucI)
  from m have "r = s4"
    unfolding match_number_def Let_def s1_def [symmetric] int_rest_def [symmetric] s2
      option.case s3_def [symmetric] s4_def [symmetric]
    by simp
  with l1 l2 l3 l4 show ?thesis by simp
qed

lemma scan_atom_length: "scan_atom s = Some (v, r) \<Longrightarrow> length r < length s"
  unfolding scan_atom_def
  by (auto split: option.splits dest!: literal_length match_number_length)

text \<open>Each of the three parsers returns a text shorter than the one it was given.\<close>

lemma parsers_consume:
  "(\<forall>s v r. scan_once k s = Some (v, r) \<longrightarrow> length r < length s) \<and>
   (\<forall>s vs r. JSONArray k s = Some (vs, r) \<longrightarrow> length r < length s) \<and>
   (\<forall>s ps r. JSONObject k s = Some (ps, r) \<longrightarrow> length r < length s)"
proof (induction k)
  case 0
  show ?case by simp
next
  case (Suc k)
  then have ihv: "scan_once k s = Some (v, r) \<Longrightarrow> length r < length s"
    and iha: "JSONArray k s = Some (vs, r) \<Longrightarrow> length r < length s"
    and iho: "JSONObject k s = Some (ps, r) \<Longrightarrow> length r < length s" for s v vs ps r
    by blast+
  have v: "length r < length s" if "scan_once (Suc k) s = Some (v, r)" for s v r
  proof (cases s)
    case Nil
    with that show ?thesis by simp
  next
    case (Cons c cs)
    from that show ?thesis
      unfolding Cons scan_once.simps
      by (auto split: if_splits option.splits list.splits
          dest!: scanstring_length scan_atom_length skip_ws_Cons_length iha iho)
  qed
  have a: "length r < length s" if "JSONArray (Suc k) s = Some (vs, r)" for s vs r
    using that unfolding JSONArray.simps
    by (auto split: if_splits option.splits list.splits
        dest!: prepend_Some ihv iha skip_ws_Cons_length skip_ws_less)
  have ob: "length r < length s" if "JSONObject (Suc k) s = Some (ps, r)" for s ps r
    using that unfolding JSONObject.simps
    by (auto split: if_splits option.splits list.splits
        dest!: prepend_Some ihv iho scanstring_length skip_ws_Cons_length skip_ws_less)
  from v a ob show ?case by blast
qed

lemmas scan_once_consumes = parsers_consume [THEN conjunct1, rule_format]

text \<open>With a bound above twice the length of the text, a larger bound changes nothing: the
  bound that \<open>json_loads\<close> gives is never the reason for a failure.\<close>

lemma fuel_enough:
  "(\<forall>s. 2 * length s < k \<longrightarrow> scan_once (k + j) s = scan_once k s) \<and>
   (\<forall>s. 2 * length s + 1 < k \<longrightarrow> JSONArray (k + j) s = JSONArray k s) \<and>
   (\<forall>s. 2 * length s + 1 < k \<longrightarrow> JSONObject (k + j) s = JSONObject k s)"
proof (induction k)
  case 0
  show ?case by simp
next
  case (Suc k)
  then have ihv: "2 * length s < k \<Longrightarrow> scan_once (k + j) s = scan_once k s"
    and iha: "2 * length s + 1 < k \<Longrightarrow> JSONArray (k + j) s = JSONArray k s"
    and iho: "2 * length s + 1 < k \<Longrightarrow> JSONObject (k + j) s = JSONObject k s" for s
    by blast+
  have v: "scan_once (Suc (k + j)) s = scan_once (Suc k) s" if b: "2 * length s < Suc k" for s
  proof (cases s)
    case Nil
    then show ?thesis by simp
  next
    case s: (Cons c cs)
    show ?thesis
    proof (cases "skip_ws cs")
      case Nil
      then show ?thesis by (simp add: s)
    next
      case (Cons d r)
      have lr: "length r < length cs"
        using Cons by (rule skip_ws_Cons_length)
      have A: "JSONArray (k + j) (d # r) = JSONArray k (d # r)"
        using lr b s by (intro iha) simp
      have O: "JSONObject (k + j) r = JSONObject k r"
        using lr b s by (intro iho) simp
      show ?thesis
        by (simp add: s Cons A O)
    qed
  qed
  have a: "JSONArray (Suc (k + j)) s = JSONArray (Suc k) s" if b: "2 * length s + 1 < Suc k" for s
  proof -
    have V: "scan_once (k + j) s = scan_once k s"
      using b by (intro ihv) simp
    show ?thesis
    proof (cases "scan_once k s")
      case None
      then show ?thesis by (simp add: V)
    next
      case (Some p)
      obtain v r where p: "p = (v, r)" by (cases p)
      from Some p have lr: "length r < length s"
        by (intro scan_once_consumes) simp
      show ?thesis
      proof (cases "skip_ws r")
        case Nil
        then show ?thesis by (simp add: V Some p)
      next
        case (Cons d r')
        have "length r' < length r"
          using Cons by (rule skip_ws_Cons_length)
        with lr skip_ws_length [of r'] have "2 * length (skip_ws r') + 1 < k"
          using b by simp
        then have A: "JSONArray (k + j) (skip_ws r') = JSONArray k (skip_ws r')"
          by (rule iha)
        show ?thesis by (simp add: V Some p Cons A)
      qed
    qed
  qed
  have ob: "JSONObject (Suc (k + j)) s = JSONObject (Suc k) s" if b: "2 * length s + 1 < Suc k" for s
  proof (cases "scanstring s")
    case None
    then show ?thesis by simp
  next
    case (Some p)
    obtain key r where p: "p = (key, r)" by (cases p)
    from Some p have lr: "length r < length s"
      by (intro scanstring_length) simp
    show ?thesis
    proof (cases "skip_ws r")
      case Nil
      then show ?thesis by (simp add: Some p)
    next
      case r1: (Cons c r1)
      have l1: "length r1 < length r"
        using r1 by (rule skip_ws_Cons_length)
      with lr skip_ws_length [of r1] have "2 * length (skip_ws r1) < k"
        using b by simp
      then have V: "scan_once (k + j) (skip_ws r1) = scan_once k (skip_ws r1)"
        by (rule ihv)
      show ?thesis
      proof (cases "scan_once k (skip_ws r1)")
        case None
        then show ?thesis by (simp add: Some p r1 V)
      next
        case v: (Some q)
        obtain v r2 where q: "q = (v, r2)" by (cases q)
        from v q have l2: "length r2 < length (skip_ws r1)"
          by (intro scan_once_consumes) simp
        show ?thesis
        proof (cases "skip_ws r2")
          case Nil
          then show ?thesis by (simp add: Some p r1 V v q)
        next
          case r3: (Cons d r3)
          have l3: "length r3 < length r2"
            using r3 by (rule skip_ws_Cons_length)
          show ?thesis
          proof (cases "skip_ws r3")
            case Nil
            then show ?thesis by (simp add: Some p r1 V v q r3)
          next
            case r4: (Cons e r4)
            have "length r4 < length r3"
              using r4 by (rule skip_ws_Cons_length)
            with l3 l2 l1 lr skip_ws_length [of r1] have "2 * length r4 + 1 < k"
              using b by simp
            then have O: "JSONObject (k + j) r4 = JSONObject k r4"
              by (rule iho)
            show ?thesis by (simp add: Some p r1 V v q r3 r4 O)
          qed
        qed
      qed
    qed
  qed
  from v a ob show ?case by simp
qed

lemma json_loads_fuel:
  "(case scan_once (Suc (2 * length s) + j) (skip_ws s) of
      None \<Rightarrow> None
    | Some (v, r) \<Rightarrow> if skip_ws r = [] then Some v else None) = json_loads s"
proof -
  have "2 * length (skip_ws s) < Suc (2 * length s)"
    using skip_ws_length [of s] by simp
  with fuel_enough [of "Suc (2 * length s)" j]
  have "scan_once (Suc (2 * length s) + j) (skip_ws s) = scan_once (Suc (2 * length s)) (skip_ws s)"
    by blast
  then show ?thesis by (simp add: json_loads_def)
qed

end
